theory Spec2Isabelle
  imports Main "HOL-Library.Multiset"
begin

section \<open>Channels\<close>

text \<open>
  A Go channel of element type \<open>'v\<close>: the buffered elements (oldest first), the
  capacity given to \<open>make\<close>, and whether \<open>close\<close> was called. The field \<open>taken\<close>
  is a history variable: every element ever received from the channel, in the order of
  the receives. No operation of the program reads it.

  A send proceeds when the buffer has room. Every channel a stream holds is made by this
  package with capacity \<open>len(data)\<close>, \<open>1\<close> or \<open>s.workers\<close>; the only channel of
  capacity \<open>0\<close> is the one of an empty slice, on which nothing is sent, so the
  rendezvous of an unbuffered channel never occurs. No goroutine of the package sends
  after its own close, so a send on a closed channel is a blocked event here.
\<close>

type_synonym chan_id = nat

record 'v chan =
  buf :: "'v list"
  cap :: nat
  closed :: bool
  taken :: "'v list"

definition make_chan :: "nat \<Rightarrow> 'v chan" where
  "make_chan n = \<lparr>buf = [], cap = n, closed = False, taken = []\<rparr>"

text \<open>Everything ever sent on the channel: what was received, then what still waits.\<close>

definition sent :: "'v chan \<Rightarrow> 'v list" where
  "sent c = taken c @ buf c"

definition can_send :: "'v chan \<Rightarrow> bool" where
  "can_send c \<longleftrightarrow> \<not> closed c \<and> length (buf c) < cap c"

definition send :: "'v \<Rightarrow> 'v chan \<Rightarrow> 'v chan" where
  "send x c = c\<lparr>buf := buf c @ [x]\<rparr>"

definition close :: "'v chan \<Rightarrow> 'v chan" where
  "close c = c\<lparr>closed := True\<rparr>"

text \<open>
  What a receive \<open>item, ok := <-c\<close> finds: an element, the closed and drained channel
  (\<open>ok = false\<close>), or nothing yet (the receive blocks; a \<open>select\<close> takes another case).
\<close>

datatype 'v recv = Item 'v | Closed | Blocked

definition peek :: "'v chan \<Rightarrow> 'v recv" where
  "peek c = (case buf c of x # _ \<Rightarrow> Item x | [] \<Rightarrow> if closed c then Closed else Blocked)"

definition pop :: "'v chan \<Rightarrow> 'v chan" where
  "pop c = (case buf c of x # rest \<Rightarrow> c\<lparr>buf := rest, taken := taken c @ [x]\<rparr> | [] \<Rightarrow> c)"

section \<open>Streams, goroutines and the world\<close>

text \<open>
  \<open>type stream struct { source chan T; workers int }\<close>. A \<open>Stream\<close> value is a
  pointer to such a struct: an index into \<open>objs\<close>. Channels live in \<open>chans\<close> and
  are named by their index. Elements have one type \<open>'v\<close> throughout (for a \<open>Map\<close>
  from \<open>T\<close> to \<open>R\<close>, take the sum of the two).
\<close>

record stream =
  source :: chan_id
  workers :: int

datatype ctx_err = Canceled | DeadlineExceeded

datatype error = ErrEmptyStream | CtxErr ctx_err

text \<open>The function a stage was given: \<open>Map(fn func(T) R)\<close> or \<open>Filter(fn func(T) bool)\<close>.\<close>

datatype 'v body = MapFn "'v \<Rightarrow> 'v" | FilterFn "'v \<Rightarrow> bool"

text \<open>
  Where a loop that sends stands: at its head (the next receive of a \<open>range\<close> loop, or
  the next call of the generator), at a send \<open>out <- y\<close> that has not gone through yet,
  or past its end.
\<close>

datatype 'v loop = LoopHead | Sending 'v | LoopExit

text \<open>
  The goroutine \<open>Map\<close> and \<open>Filter\<close> start: at \<open>if s.workers == 1\<close>, in the
  sequential loop, in \<open>for i := 0; i < s.workers; i++\<close> with the value of \<open>i\<close>, at
  \<open>wg.Wait()\<close>, or returned (its deferred \<open>close(out)\<close> done).
\<close>

datatype 'v outer_pc = Entry | SeqLoop "'v loop" | Spawn int | Wait | Returned

text \<open>
  The goroutines of the package.
  \<^item> \<open>SliceG source data returned\<close>: the producer of \<open>NewSliceStream\<close>, with the
    elements it has still to send.
  \<^item> \<open>GenG source gen g pc n\<close>: the producer of \<open>Generator\<close>. The closure
    \<open>gen func() (T, bool)\<close> is a function of its captured state \<open>g\<close>, returning the
    pair and the new state; \<open>n\<close> counts its calls (a history variable).
  \<^item> \<open>StageG fn s out pc wg pool\<close>: the goroutine of \<open>Map\<close> or \<open>Filter\<close> on the
    stream \<open>s\<close> (the closure captures the pointer), with its \<open>sync.WaitGroup\<close> counter
    and the loops of the worker goroutines it has started.
\<close>

datatype ('v, 'g) goroutine =
    SliceG chan_id "'v list" bool
  | GenG chan_id "'g \<Rightarrow> ('v \<times> bool) \<times> 'g" 'g "'v loop" nat
  | StageG "'v body" nat chan_id "'v outer_pc" nat "'v loop list"

text \<open>
  \<open>ctx\<close> is the \<open>context.Context\<close> handed to \<open>Collect\<close>: \<open>None\<close> while its
  \<open>Done()\<close> channel is open, \<open>Some e\<close> once it fired, with \<open>e\<close> what \<open>ctx.Err()\<close>
  returns.
\<close>

record ('v, 'g) world =
  chans :: "'v chan list"
  objs :: "stream list"
  gos :: "('v, 'g) goroutine list"
  ctx :: "ctx_err option"

definition world0 :: "('v, 'g) world" where
  "world0 = \<lparr>chans = [], objs = [], gos = [], ctx = None\<rparr>"

definition upd_chan :: "chan_id \<Rightarrow> ('v chan \<Rightarrow> 'v chan) \<Rightarrow> ('v, 'g) world \<Rightarrow> ('v, 'g) world" where
  "upd_chan c f w = w\<lparr>chans := (chans w)[c := f (chans w ! c)]\<rparr>"

definition set_go :: "nat \<Rightarrow> ('v, 'g) goroutine \<Rightarrow> ('v, 'g) world \<Rightarrow> ('v, 'g) world" where
  "set_go p g w = w\<lparr>gos := (gos w)[p := g]\<rparr>"

section \<open>Constructors and configuration\<close>

definition NewSliceStream :: "'v list \<Rightarrow> ('v, 'g) world \<Rightarrow> nat \<times> ('v, 'g) world" where
  "NewSliceStream data w =
     (let src = length (chans w) in
      (length (objs w),
       w\<lparr>chans := chans w @ [make_chan (length data)],
         gos := gos w @ [SliceG src data False],
         objs := objs w @ [\<lparr>source = src, workers = 1\<rparr>]\<rparr>))"

definition Generator :: "('g \<Rightarrow> ('v \<times> bool) \<times> 'g) \<Rightarrow> 'g \<Rightarrow> ('v, 'g) world \<Rightarrow> nat \<times> ('v, 'g) world" where
  "Generator gen g w =
     (let src = length (chans w) in
      (length (objs w),
       w\<lparr>chans := chans w @ [make_chan 1],
         gos := gos w @ [GenG src gen g LoopHead 0],
         objs := objs w @ [\<lparr>source = src, workers = 1\<rparr>]\<rparr>))"

text \<open>
  \<open>Map\<close> and \<open>Filter\<close> make the channel \<open>out\<close> with capacity \<open>s.workers\<close>, start
  their goroutine and return a new struct around \<open>out\<close>. The two differ in the body of
  their loops only, which \<open>stage\<close> takes as \<open>fn\<close>. The worker count of every stream
  the package makes is at least \<open>1\<close> (the constructors set \<open>1\<close>, \<open>Parallel\<close> never
  sets less), so the capacity is never negative.
\<close>

definition stage :: "'v body \<Rightarrow> nat \<Rightarrow> ('v, 'g) world \<Rightarrow> nat \<times> ('v, 'g) world" where
  "stage fn s w =
     (let out = length (chans w) in
      (length (objs w),
       w\<lparr>chans := chans w @ [make_chan (nat (workers (objs w ! s)))],
         gos := gos w @ [StageG fn s out Entry 0 []],
         objs := objs w @ [\<lparr>source = out, workers = workers (objs w ! s)\<rparr>]\<rparr>))"

definition Map :: "('v \<Rightarrow> 'v) \<Rightarrow> nat \<Rightarrow> ('v, 'g) world \<Rightarrow> nat \<times> ('v, 'g) world" where
  "Map fn s w = stage (MapFn fn) s w"

definition Filter :: "('v \<Rightarrow> bool) \<Rightarrow> nat \<Rightarrow> ('v, 'g) world \<Rightarrow> nat \<times> ('v, 'g) world" where
  "Filter fn s w = stage (FilterFn fn) s w"

definition Parallel :: "int \<Rightarrow> nat \<Rightarrow> ('v, 'g) world \<Rightarrow> nat \<times> ('v, 'g) world" where
  "Parallel n s w =
     (let n' = (if n \<le> 0 then 1 else n) in
      (s, w\<lparr>objs := (objs w)[s := (objs w ! s)\<lparr>workers := n'\<rparr>]\<rparr>))"

section \<open>Steps of the goroutines\<close>

text \<open>
  The body of the four \<open>for item := range s.source\<close> loops of \<open>Map\<close> and
  \<open>Filter\<close>: \<open>out <- fn(item)\<close>, or \<open>if fn(item) { out <- item }\<close>.
\<close>

definition apply_body :: "'v body \<Rightarrow> 'v \<Rightarrow> 'v loop" where
  "apply_body fn item =
     (case fn of
        MapFn f \<Rightarrow> Sending (f item)
      | FilterFn p \<Rightarrow> if p item then Sending item else LoopHead)"

definition loop_step ::
  "'v body \<Rightarrow> chan_id \<Rightarrow> chan_id \<Rightarrow> 'v loop \<Rightarrow> ('v, 'g) world \<Rightarrow> 'v loop \<times> ('v, 'g) world" where
  "loop_step fn src out pc w =
     (case pc of
        LoopHead \<Rightarrow>
          (case peek (chans w ! src) of
             Item item \<Rightarrow> (apply_body fn item, upd_chan src pop w)
           | Closed \<Rightarrow> (LoopExit, w)
           | Blocked \<Rightarrow> (LoopHead, w))
      | Sending y \<Rightarrow>
          if can_send (chans w ! out) then (LoopHead, upd_chan out (send y) w)
          else (Sending y, w)
      | LoopExit \<Rightarrow> (LoopExit, w))"

text \<open>One step of goroutine \<open>p\<close>; a blocked or finished goroutine leaves the world as it is.\<close>

definition go_step :: "nat \<Rightarrow> ('v, 'g) world \<Rightarrow> ('v, 'g) world" where
  "go_step p w =
     (if p < length (gos w) then
        (case gos w ! p of
           SliceG src rest fin \<Rightarrow>
             if fin then w
             else (case rest of
                 [] \<Rightarrow> set_go p (SliceG src [] True) (upd_chan src close w)
               | item # rest' \<Rightarrow>
                   if can_send (chans w ! src)
                   then set_go p (SliceG src rest' False) (upd_chan src (send item) w)
                   else w)
         | GenG src gen g pc n \<Rightarrow>
             (case pc of
                LoopHead \<Rightarrow>
                  (case gen g of
                     ((item, ok), g') \<Rightarrow>
                       if \<not> ok then set_go p (GenG src gen g' LoopExit (n + 1)) (upd_chan src close w)
                       else set_go p (GenG src gen g' (Sending item) (n + 1)) w)
              | Sending item \<Rightarrow>
                  if can_send (chans w ! src)
                  then set_go p (GenG src gen g LoopHead n) (upd_chan src (send item) w)
                  else w
              | LoopExit \<Rightarrow> w)
         | StageG fn s out pc wg pool \<Rightarrow>
             (case pc of
                Entry \<Rightarrow>
                  set_go p (StageG fn s out
                    (if workers (objs w ! s) = 1 then SeqLoop LoopHead else Spawn 0) wg pool) w
              | SeqLoop l \<Rightarrow>
                  (case loop_step fn (source (objs w ! s)) out l w of
                     (l', w') \<Rightarrow>
                       if l' = LoopExit
                       then set_go p (StageG fn s out Returned wg pool) (upd_chan out close w')
                       else set_go p (StageG fn s out (SeqLoop l') wg pool) w')
              | Spawn i \<Rightarrow>
                  if i < workers (objs w ! s)
                  then set_go p (StageG fn s out (Spawn (i + 1)) (wg + 1) (pool @ [LoopHead])) w
                  else set_go p (StageG fn s out Wait wg pool) w
              | Wait \<Rightarrow>
                  if wg = 0 then set_go p (StageG fn s out Returned wg pool) (upd_chan out close w)
                  else w
              | Returned \<Rightarrow> w))
      else w)"

text \<open>
  One step of the \<open>k\<close>-th worker goroutine started by the stage goroutine \<open>p\<close>; on
  leaving its loop it runs its deferred \<open>wg.Done()\<close>.
\<close>

definition child_step :: "nat \<Rightarrow> nat \<Rightarrow> ('v, 'g) world \<Rightarrow> ('v, 'g) world" where
  "child_step p k w =
     (if p < length (gos w) then
        (case gos w ! p of
           StageG fn s out pc wg pool \<Rightarrow>
             if k < length pool \<and> pool ! k \<noteq> LoopExit then
               (case loop_step fn (source (objs w ! s)) out (pool ! k) w of
                  (l', w') \<Rightarrow>
                    set_go p (StageG fn s out pc (if l' = LoopExit then wg - 1 else wg)
                      (pool[k := l'])) w')
             else w
         | _ \<Rightarrow> w)
      else w)"

section \<open>Schedules\<close>

text \<open>
  What can happen next: a goroutine of the package runs a step (\<open>Run\<close>, \<open>RunChild\<close>);
  a producer outside the package sends on a channel or closes it (\<open>Feed\<close>, \<open>Shut\<close>);
  the context fires (\<open>Fire\<close>); or the caller's goroutine runs one iteration of the loop
  of its terminal operation (\<open>Poll\<close>). When a \<open>select\<close> finds several cases ready Go
  takes any one of them: the \<open>pick\<close> of the event says which.
\<close>

datatype pick = PickSource | PickDone

datatype 'v event = Run nat | RunChild nat nat | Feed chan_id 'v | Shut chan_id | Fire ctx_err | Poll pick

fun exec :: "'v event \<Rightarrow> ('v, 'g) world \<Rightarrow> ('v, 'g) world" where
  "exec (Run p) w = go_step p w"
| "exec (RunChild p k) w = child_step p k w"
| "exec (Feed c x) w = (if can_send (chans w ! c) then upd_chan c (send x) w else w)"
| "exec (Shut c) w = upd_chan c close w"
| "exec (Fire e) w = (case ctx w of None \<Rightarrow> w\<lparr>ctx := Some e\<rparr> | Some _ \<Rightarrow> w)"
| "exec (Poll _) w = w"

text \<open>
  A terminal operation, given as one iteration \<open>iter\<close> of its loop on its local
  variables, run under a schedule.
\<close>

fun drive ::
  "(pick \<Rightarrow> 'st \<times> ('v, 'g) world \<Rightarrow> 'st \<times> ('v, 'g) world) \<Rightarrow> 'v event list \<Rightarrow>
   'st \<times> ('v, 'g) world \<Rightarrow> 'st \<times> ('v, 'g) world" where
  "drive iter [] x = x"
| "drive iter (e # es) x =
     drive iter es (case e of Poll p \<Rightarrow> iter p x | _ \<Rightarrow> (fst x, exec e (snd x)))"

text \<open>The events of the package's own goroutines and of the caller.\<close>

fun internal :: "'v event \<Rightarrow> bool" where
  "internal (Run _) = True"
| "internal (RunChild _ _) = True"
| "internal (Poll _) = True"
| "internal _ = False"

section \<open>Terminal operations\<close>

record 'v collect_st =
  result :: "'v list"
  c_ret :: "('v list \<times> error option) option"

text \<open>
  One iteration of the \<open>for { select { ... } }\<close> of \<open>Collect\<close>. With the source and
  \<open>ctx.Done()\<close> both ready the \<open>pick\<close> decides; with one ready it is taken; with
  none the \<open>default\<close> case sleeps and changes nothing. A nil slice and an empty slice are
  both the empty list: \<open>var result []T\<close> and the \<open>nil\<close> returned on cancellation are
  \<open>[]\<close>.
\<close>

definition Collect_iter ::
  "nat \<Rightarrow> pick \<Rightarrow> 'v collect_st \<times> ('v, 'g) world \<Rightarrow> 'v collect_st \<times> ('v, 'g) world" where
  "Collect_iter s p x =
     (case x of (st, w) \<Rightarrow>
        if c_ret st \<noteq> None then (st, w)
        else
          let src = source (objs w ! s); r = peek (chans w ! src) in
          if r \<noteq> Blocked \<and> (ctx w = None \<or> p = PickSource) then
            (case r of
               Item item \<Rightarrow> (st\<lparr>result := result st @ [item]\<rparr>, upd_chan src pop w)
             | Closed \<Rightarrow> (st\<lparr>c_ret := Some (result st, None)\<rparr>, w)
             | Blocked \<Rightarrow> (st, w))
          else
            (case ctx w of
               Some e \<Rightarrow> (st\<lparr>c_ret := Some ([], Some (CtxErr e))\<rparr>, w)
             | None \<Rightarrow> (st, w)))"

definition Collect_stream ::
  "nat \<Rightarrow> 'v event list \<Rightarrow> ('v, 'g) world \<Rightarrow> 'v collect_st \<times> ('v, 'g) world" where
  "Collect_stream s sched w = drive (Collect_iter s) sched (\<lparr>result = [], c_ret = None\<rparr>, w)"

text \<open>
  \<open>Reduce\<close>: \<open>var result T\<close> starts as the zero value of \<open>T\<close>, passed as \<open>zero\<close>.
  \<open>calls\<close> is a history variable: the argument pairs \<open>fn\<close> was called with.
\<close>

record 'v reduce_st =
  r_result :: 'v
  first :: bool
  calls :: "('v \<times> 'v) list"
  r_ret :: "('v \<times> error option) option"

definition Reduce_iter ::
  "('v \<Rightarrow> 'v \<Rightarrow> 'v) \<Rightarrow> nat \<Rightarrow> pick \<Rightarrow> 'v reduce_st \<times> ('v, 'g) world \<Rightarrow> 'v reduce_st \<times> ('v, 'g) world" where
  "Reduce_iter fn s p x =
     (case x of (st, w) \<Rightarrow>
        if r_ret st \<noteq> None then (st, w)
        else
          let src = source (objs w ! s) in
          (case peek (chans w ! src) of
             Item item \<Rightarrow>
               (if first st then st\<lparr>r_result := item, first := False\<rparr>
                else st\<lparr>r_result := fn (r_result st) item,
                        calls := calls st @ [(r_result st, item)]\<rparr>,
                upd_chan src pop w)
           | Closed \<Rightarrow>
               (st\<lparr>r_ret := Some (if first st then (r_result st, Some ErrEmptyStream)
                                   else (r_result st, None))\<rparr>, w)
           | Blocked \<Rightarrow> (st, w)))"

definition Reduce ::
  "'v \<Rightarrow> ('v \<Rightarrow> 'v \<Rightarrow> 'v) \<Rightarrow> nat \<Rightarrow> 'v event list \<Rightarrow> ('v, 'g) world \<Rightarrow> 'v reduce_st \<times> ('v, 'g) world" where
  "Reduce zero fn s sched w =
     drive (Reduce_iter fn s) sched (\<lparr>r_result = zero, first = True, calls = [], r_ret = None\<rparr>, w)"

text \<open>
  \<open>ForEach\<close>: the side effect of \<open>fn func(T)\<close> is a change of some state \<open>'u\<close>
  outside the stream; \<open>f_calls\<close> is a history variable, the arguments of its calls.
\<close>

record ('v, 'u) foreach_st =
  ext :: 'u
  f_calls :: "'v list"
  f_ret :: "error option option"

definition ForEach_iter ::
  "('v \<Rightarrow> 'u \<Rightarrow> 'u) \<Rightarrow> nat \<Rightarrow> pick \<Rightarrow> ('v, 'u) foreach_st \<times> ('v, 'g) world \<Rightarrow>
   ('v, 'u) foreach_st \<times> ('v, 'g) world" where
  "ForEach_iter fn s p x =
     (case x of (st, w) \<Rightarrow>
        if f_ret st \<noteq> None then (st, w)
        else
          let src = source (objs w ! s) in
          (case peek (chans w ! src) of
             Item item \<Rightarrow>
               (st\<lparr>ext := fn item (ext st), f_calls := f_calls st @ [item]\<rparr>, upd_chan src pop w)
           | Closed \<Rightarrow> (st\<lparr>f_ret := Some None\<rparr>, w)
           | Blocked \<Rightarrow> (st, w)))"

definition ForEach ::
  "('v \<Rightarrow> 'u \<Rightarrow> 'u) \<Rightarrow> 'u \<Rightarrow> nat \<Rightarrow> 'v event list \<Rightarrow> ('v, 'g) world \<Rightarrow>
   ('v, 'u) foreach_st \<times> ('v, 'g) world" where
  "ForEach fn u s sched w = drive (ForEach_iter fn s) sched (\<lparr>ext = u, f_calls = [], f_ret = None\<rparr>, w)"

section \<open>Streams fed from outside\<close>

text \<open>
  A stream whose channel (of capacity \<open>n\<close>) is written by a producer the model does not
  hold: its sends and its close are the \<open>Feed\<close> and \<open>Shut\<close> events of the schedule,
  interleaved in any way with the iterations of the terminal operation. This is every
  behaviour a source can show to the operation that drains it.
\<close>

definition fed_stream :: "nat \<Rightarrow> ('v, 'g) world" where
  "fed_stream n = \<lparr>chans = [make_chan n], objs = [\<lparr>source = 0, workers = 1\<rparr>], gos = [], ctx = None\<rparr>"

text \<open>The shape of such a world, which no event changes, and its one channel.\<close>

definition fed :: "('v, 'g) world \<Rightarrow> bool" where
  "fed w \<longleftrightarrow> objs w = [\<lparr>source = 0, workers = 1\<rparr>] \<and> gos w = [] \<and> length (chans w) = 1"

definition the_chan :: "('v, 'g) world \<Rightarrow> 'v chan" where
  "the_chan w = chans w ! 0"

text \<open>
  The calls of \<open>fn\<close> in a left fold from the accumulator \<open>acc\<close>: each with the
  accumulator it was given.
\<close>

fun fold_calls :: "('v \<Rightarrow> 'v \<Rightarrow> 'v) \<Rightarrow> 'v \<Rightarrow> 'v list \<Rightarrow> ('v \<times> 'v) list" where
  "fold_calls fn acc [] = []"
| "fold_calls fn acc (x # xs) = (acc, x) # fold_calls fn (fn acc x) xs"

text \<open>
  What the local variables of \<open>Reduce\<close> and \<open>ForEach\<close> hold once the elements
  \<open>taken c\<close> have been received.
\<close>

definition red_rel :: "('v \<Rightarrow> 'v \<Rightarrow> 'v) \<Rightarrow> 'v \<Rightarrow> 'v reduce_st \<Rightarrow> 'v chan \<Rightarrow> bool" where
  "red_rel fn zero st c \<longleftrightarrow>
     (case taken c of
        [] \<Rightarrow> first st \<and> r_result st = zero \<and> calls st = []
      | x # xs \<Rightarrow> \<not> first st \<and> r_result st = foldl fn x xs \<and> calls st = fold_calls fn x xs)
     \<and> (case r_ret st of
          None \<Rightarrow> True
        | Some r \<Rightarrow> closed c \<and> buf c = []
            \<and> r = (r_result st, if first st then Some ErrEmptyStream else None))"

definition fe_rel :: "('v \<Rightarrow> 'u \<Rightarrow> 'u) \<Rightarrow> 'u \<Rightarrow> ('v, 'u) foreach_st \<Rightarrow> 'v chan \<Rightarrow> bool" where
  "fe_rel fn u st c \<longleftrightarrow>
     f_calls st = taken c \<and> ext st = foldl (\<lambda>a x. fn x a) u (taken c)
     \<and> (case f_ret st of None \<Rightarrow> True | Some r \<Rightarrow> r = None \<and> closed c \<and> buf c = [])"


text \<open>The schedules in which the context never fires have no event \<open>Fire\<close>.\<close>

fun fires :: "'v event \<Rightarrow> bool" where
  "fires (Fire _) = True"
| "fires _ = False"

text \<open>
  What the local variables of \<open>Collect\<close> hold once the elements \<open>taken c\<close> have been
  received, and what it can have returned.
\<close>

definition col_rel :: "'v collect_st \<Rightarrow> 'v chan \<Rightarrow> ctx_err option \<Rightarrow> bool" where
  "col_rel st c cx \<longleftrightarrow>
     result st = taken c
     \<and> (case c_ret st of
          None \<Rightarrow> True
        | Some (xs, None) \<Rightarrow> closed c \<and> buf c = [] \<and> xs = taken c
        | Some (xs, Some err) \<Rightarrow> xs = [] \<and> (\<exists>e. cx = Some e \<and> err = CtxErr e))"

section \<open>The pipeline of a slice, one stage and Collect\<close>

text \<open>
  The element a loop holds between its receive and its send, and what the body of a
  stage sends for one element: the image for \<open>Map\<close>, the element itself when \<open>Filter\<close>
  accepts it.
\<close>

fun holding :: "'v loop \<Rightarrow> 'v list" where
  "holding (Sending y) = [y]"
| "holding _ = []"

fun emit :: "'v body \<Rightarrow> 'v \<Rightarrow> 'v list" where
  "emit (MapFn f) x = [f x]"
| "emit (FilterFn p) x = (if p x then [x] else [])"

definition outs :: "'v body \<Rightarrow> 'v list \<Rightarrow> 'v list" where
  "outs fn xs = concat (map (emit fn) xs)"

text \<open>
  The world after \<open>NewSliceStream\<close>, an optional \<open>Parallel\<close> and one \<open>Map\<close> or
  \<open>Filter\<close> has two channels (\<open>0\<close> upstream, \<open>1\<close> downstream), two stream structs and
  two goroutines, the producer (\<open>0\<close>) and the stage (\<open>1\<close>). The functions below read
  the local variables of the two goroutines.
\<close>

definition sl_rest :: "('v, 'g) world \<Rightarrow> 'v list" where
  "sl_rest w = (case gos w ! 0 of SliceG _ r _ \<Rightarrow> r | _ \<Rightarrow> [])"

definition sl_fin :: "('v, 'g) world \<Rightarrow> bool" where
  "sl_fin w = (case gos w ! 0 of SliceG _ _ f \<Rightarrow> f | _ \<Rightarrow> False)"

definition st_pc :: "('v, 'g) world \<Rightarrow> 'v outer_pc" where
  "st_pc w = (case gos w ! 1 of StageG _ _ _ pc _ _ \<Rightarrow> pc | _ \<Rightarrow> Returned)"

definition st_wg :: "('v, 'g) world \<Rightarrow> nat" where
  "st_wg w = (case gos w ! 1 of StageG _ _ _ _ wg _ \<Rightarrow> wg | _ \<Rightarrow> 0)"

definition st_pool :: "('v, 'g) world \<Rightarrow> 'v loop list" where
  "st_pool w = (case gos w ! 1 of StageG _ _ _ _ _ pool \<Rightarrow> pool | _ \<Rightarrow> [])"

text \<open>
  The elements held by the loops of the stage, and the number of workers still in their
  loop.
\<close>

definition held :: "('v, 'g) world \<Rightarrow> 'v list" where
  "held w = concat (map holding (case st_pc w of SeqLoop l \<Rightarrow> [l] | _ \<Rightarrow> st_pool w))"

definition active :: "'v loop list \<Rightarrow> nat" where
  "active pool = length (filter (\<lambda>l. l \<noteq> LoopExit) pool)"

definition layout :: "int \<Rightarrow> 'v body \<Rightarrow> ('v, 'g) world \<Rightarrow> bool" where
  "layout N fn w \<longleftrightarrow>
     (\<exists>c0 c1. chans w = [c0, c1])
     \<and> objs w = [\<lparr>source = 0, workers = N\<rparr>, \<lparr>source = 1, workers = N\<rparr>]
     \<and> (\<exists>rest fin pc wg pool. gos w = [SliceG 0 rest fin, StageG fn 0 1 pc wg pool])
     \<and> ctx w = None"

text \<open>
  Where the stage goroutine stands against its workers and its channels: the downstream
  channel is open until it returns, and it returns only with every started worker out of
  its loop and the upstream channel closed and drained.
\<close>

definition ctl :: "int \<Rightarrow> ('v, 'g) world \<Rightarrow> bool" where
  "ctl N w \<longleftrightarrow>
     (case st_pc w of
        Entry \<Rightarrow> st_pool w = [] \<and> \<not> closed (chans w ! 1)
      | SeqLoop l \<Rightarrow> N = 1 \<and> st_pool w = [] \<and> l \<noteq> LoopExit \<and> \<not> closed (chans w ! 1)
      | Spawn i \<Rightarrow> N \<noteq> 1 \<and> int (length (st_pool w)) = i \<and> i \<le> N \<and> \<not> closed (chans w ! 1)
      | Wait \<Rightarrow> N \<noteq> 1 \<and> int (length (st_pool w)) = N \<and> \<not> closed (chans w ! 1)
      | Returned \<Rightarrow>
          closed (chans w ! 1) \<and> active (st_pool w) = 0
          \<and> (if N = 1 then st_pool w = [] else int (length (st_pool w)) = N)
          \<and> closed (chans w ! 0) \<and> buf (chans w ! 0) = [])"

text \<open>
  The invariant of the pipeline for the slice \<open>S\<close>, the stage function \<open>fn\<close> and the
  worker count \<open>N\<close>: the producer has sent a prefix of \<open>S\<close>; what was sent downstream
  together with what the loops hold is what the body makes of the elements received
  upstream, as a multiset, and in order when \<open>N = 1\<close>; the \<open>WaitGroup\<close> counts the
  workers still in their loop; \<open>Collect\<close> has received what was taken downstream and
  returns only from the closed and drained channel.
\<close>

definition Good :: "'v list \<Rightarrow> 'v body \<Rightarrow> int \<Rightarrow> 'v collect_st \<times> ('v, 'g) world \<Rightarrow> bool" where
  "Good S fn N x \<longleftrightarrow>
     (case x of (st, w) \<Rightarrow>
        layout N fn w \<and> 1 \<le> N
        \<and> sent (chans w ! 0) @ sl_rest w = S
        \<and> closed (chans w ! 0) = sl_fin w
        \<and> (sl_fin w \<longrightarrow> sl_rest w = [])
        \<and> cap (chans w ! 0) = length S
        \<and> mset (sent (chans w ! 1)) + mset (held w) = mset (outs fn (taken (chans w ! 0)))
        \<and> (N = 1 \<longrightarrow> sent (chans w ! 1) @ held w = outs fn (taken (chans w ! 0)))
        \<and> ctl N w
        \<and> st_wg w = active (st_pool w)
        \<and> (LoopExit \<in> set (st_pool w) \<longrightarrow> closed (chans w ! 0) \<and> buf (chans w ! 0) = [])
        \<and> cap (chans w ! 1) = nat N
        \<and> result st = taken (chans w ! 1)
        \<and> (\<forall>r. c_ret st = Some r \<longrightarrow>
              r = (taken (chans w ! 1), None) \<and> closed (chans w ! 1) \<and> buf (chans w ! 1) = []))"

text \<open>A bound on the steps still to come, which every step of a goroutine lowers.\<close>

definition pcw :: "int \<Rightarrow> 'v outer_pc \<Rightarrow> nat" where
  "pcw N pc = (case pc of Entry \<Rightarrow> 2 * nat N + 4 | SeqLoop l \<Rightarrow> 1
     | Spawn i \<Rightarrow> 2 * nat (N - i) + 2 | Wait \<Rightarrow> 1 | Returned \<Rightarrow> 0)"

definition mu :: "int \<Rightarrow> 'v collect_st \<times> ('v, 'g) world \<Rightarrow> nat" where
  "mu N x =
     (case x of (st, w) \<Rightarrow>
        4 * length (sl_rest w) + (if sl_fin w then 0 else 1) + 3 * length (buf (chans w ! 0))
        + 2 * length (held w) + length (buf (chans w ! 1)) + pcw N (st_pc w)
        + active (st_pool w) + (if c_ret st = None then 1 else 0))"

text \<open>
  One event of a schedule, as \<open>drive\<close> runs it, and the number of events of a schedule
  that change the state (a blocked goroutine, or the \<open>default\<close> case of \<open>Collect\<close>,
  changes nothing).
\<close>

definition one ::
  "(pick \<Rightarrow> 'st \<times> ('v, 'g) world \<Rightarrow> 'st \<times> ('v, 'g) world) \<Rightarrow> 'v event \<Rightarrow>
   'st \<times> ('v, 'g) world \<Rightarrow> 'st \<times> ('v, 'g) world" where
  "one iter e x = (case e of Poll p \<Rightarrow> iter p x | _ \<Rightarrow> (fst x, exec e (snd x)))"

fun moves ::
  "(pick \<Rightarrow> 'st \<times> ('v, 'g) world \<Rightarrow> 'st \<times> ('v, 'g) world) \<Rightarrow> 'v event list \<Rightarrow>
   'st \<times> ('v, 'g) world \<Rightarrow> nat" where
  "moves iter [] x = 0"
| "moves iter (e # es) x = (if one iter e x = x then 0 else 1) + moves iter es (one iter e x)"

text \<open>The channel of a stream: \<open>s.source\<close>.\<close>

definition chan_of :: "nat \<Rightarrow> ('v, 'g) world \<Rightarrow> 'v chan" where
  "chan_of s w = chans w ! source (objs w ! s)"

text \<open>
  The goroutines started so far run between the calls of the caller as well: \<open>run\<close> is
  a schedule with no terminal operation under way.
\<close>

definition run :: "'v event list \<Rightarrow> ('v, 'g) world \<Rightarrow> ('v, 'g) world" where
  "run es w = fold exec es w"

text \<open>
  The world between \<open>NewSliceStream(S)\<close> and the stage, the worker count of the stream
  being \<open>N\<close>: the producer has sent a prefix of \<open>S\<close>, and nothing was received yet.
\<close>

definition pre_slice :: "'v list \<Rightarrow> int \<Rightarrow> ('v, 'g) world \<Rightarrow> bool" where
  "pre_slice S N w \<longleftrightarrow>
     (\<exists>c0 rest fin.
        w = \<lparr>chans = [c0], objs = [\<lparr>source = 0, workers = N\<rparr>], gos = [SliceG 0 rest fin], ctx = None\<rparr>
        \<and> S = buf c0 @ rest \<and> taken c0 = [] \<and> closed c0 = fin \<and> (fin \<longrightarrow> rest = [])
        \<and> cap c0 = length S)"

text \<open>An observation that tells a state from the state after a step that moved.\<close>

definition obs :: "'v collect_st \<times> ('v, 'g) world \<Rightarrow>
    nat \<times> ('v list \<times> error option) option \<times> ('v, 'g) goroutine list \<times> nat list \<times> bool list" where
  "obs y = (length (result (fst y)), c_ret (fst y), gos (snd y),
            map (\<lambda>c. length (buf c)) (chans (snd y)), map closed (chans (snd y)))"

section \<open>The pipeline of a generator and Collect\<close>

text \<open>
  The generator \<open>gen\<close>, called again and again from the captured state \<open>g\<close>, returns
  the values \<open>xs\<close> with has-more \<open>true\<close>, in this order, and then has-more \<open>false\<close>:
  it yields exactly \<open>length xs\<close> values.
\<close>

fun yields :: "('g \<Rightarrow> ('v \<times> bool) \<times> 'g) \<Rightarrow> 'g \<Rightarrow> 'v list \<Rightarrow> bool" where
  "yields gen g [] = (\<not> snd (fst (gen g)))"
| "yields gen g (x # xs) = (snd (fst (gen g)) \<and> fst (fst (gen g)) = x \<and> yields gen (snd (gen g)) xs)"

text \<open>The local variables of the generator's goroutine (goroutine \<open>0\<close>).\<close>

definition gn_g :: "('v, 'g) world \<Rightarrow> 'g option" where
  "gn_g w = (case gos w ! 0 of GenG _ _ g _ _ \<Rightarrow> Some g | _ \<Rightarrow> None)"

definition gn_pc :: "('v, 'g) world \<Rightarrow> 'v loop" where
  "gn_pc w = (case gos w ! 0 of GenG _ _ _ pc _ \<Rightarrow> pc | _ \<Rightarrow> LoopExit)"

definition gen_calls :: "('v, 'g) world \<Rightarrow> nat" where
  "gen_calls w = (case gos w ! 0 of GenG _ _ _ _ n \<Rightarrow> n | _ \<Rightarrow> 0)"

definition glayout :: "('g \<Rightarrow> ('v \<times> bool) \<times> 'g) \<Rightarrow> ('v, 'g) world \<Rightarrow> bool" where
  "glayout gen w \<longleftrightarrow>
     (\<exists>c. chans w = [c]) \<and> objs w = [\<lparr>source = 0, workers = 1\<rparr>]
     \<and> (\<exists>g pc n. gos w = [GenG 0 gen g pc n]) \<and> ctx w = None"

text \<open>
  The invariant: what was sent, then what the goroutine holds, is a prefix of \<open>xs\<close>, and
  from its state the generator yields the rest; it has been called once per element
  sent or held, and once more when it has returned.
\<close>

definition GenGood ::
  "('g \<Rightarrow> ('v \<times> bool) \<times> 'g) \<Rightarrow> 'v list \<Rightarrow> 'v collect_st \<times> ('v, 'g) world \<Rightarrow> bool" where
  "GenGood gen xs x \<longleftrightarrow>
     (case x of (st, w) \<Rightarrow>
        glayout gen w \<and> cap (chans w ! 0) = 1
        \<and> (case gn_pc w of
              LoopHead \<Rightarrow>
                (\<exists>g rest. gn_g w = Some g \<and> xs = sent (chans w ! 0) @ rest \<and> yields gen g rest)
                \<and> gen_calls w = length (sent (chans w ! 0)) \<and> \<not> closed (chans w ! 0)
            | Sending item \<Rightarrow>
                (\<exists>g rest. gn_g w = Some g \<and> xs = sent (chans w ! 0) @ item # rest \<and> yields gen g rest)
                \<and> gen_calls w = length (sent (chans w ! 0)) + 1 \<and> \<not> closed (chans w ! 0)
            | LoopExit \<Rightarrow>
                xs = sent (chans w ! 0) \<and> closed (chans w ! 0) \<and> gen_calls w = length xs + 1)
        \<and> result st = taken (chans w ! 0)
        \<and> (\<forall>r. c_ret st = Some r \<longrightarrow>
              r = (taken (chans w ! 0), None) \<and> closed (chans w ! 0) \<and> buf (chans w ! 0) = []))"

definition gmu :: "'v list \<Rightarrow> 'v collect_st \<times> ('v, 'g) world \<Rightarrow> nat" where
  "gmu xs x =
     (case x of (st, w) \<Rightarrow>
        3 * (length xs + 1 - gen_calls w) + (case gn_pc w of Sending _ \<Rightarrow> 2 | _ \<Rightarrow> 0)
        + length (buf (chans w ! 0)) + (if c_ret st = None then 1 else 0))"

section \<open>Schedules and invariants\<close>

lemma fold_calls_snoc:
  "fold_calls fn a (xs @ [y]) = fold_calls fn a xs @ [(foldl fn a xs, y)]"
  by (induction xs arbitrary: a) auto

lemma drive_append: "drive iter (es @ fs) x = drive iter fs (drive iter es x)"
  by (induction es arbitrary: x) auto

lemma drive_invariant:
  assumes "P x"
    and "\<And>p x. P x \<Longrightarrow> P (iter p x)"
    and "\<And>e st w. e \<in> set es \<Longrightarrow> P (st, w) \<Longrightarrow> P (st, exec e w)"
  shows "P (drive iter es x)"
  using assms(1) assms(3)
proof (induction es arbitrary: x)
  case Nil
  then show ?case by simp
next
  case (Cons e es)
  have a: "P (fst x, exec e (snd x))"
    using Cons.prems(2)[of e "fst x" "snd x"] Cons.prems(1) by simp
  have b: "P (iter p x)" for p
    using assms(2) Cons.prems(1) by simp
  have "P (case e of Poll p \<Rightarrow> iter p x | _ \<Rightarrow> (fst x, exec e (snd x)))"
    using a b by (cases e) (simp_all del: exec.simps)
  then show ?case using Cons.IH Cons.prems(2) by simp
qed

lemma fed_exec: "fed w \<Longrightarrow> fed (exec e w)"
  by (cases e) (auto simp: fed_def go_step_def child_step_def upd_chan_def split: option.splits)

lemma exec_chan_cases:
  assumes "fed w"
  shows "the_chan (exec e w) = the_chan w
       \<or> (\<exists>x. can_send (the_chan w) \<and> the_chan (exec e w) = send x (the_chan w))
       \<or> the_chan (exec e w) = close (the_chan w)"
proof (cases e)
  case (Feed c x)
  then show ?thesis using assms
    by (cases c) (auto simp: fed_def the_chan_def upd_chan_def)
next
  case (Shut c)
  then show ?thesis using assms
    by (cases c) (auto simp: fed_def the_chan_def upd_chan_def)
qed (use assms in \<open>auto simp: fed_def the_chan_def go_step_def child_step_def split: option.splits\<close>)

lemma red_rel_send: "red_rel fn zero st c \<Longrightarrow> can_send c \<Longrightarrow> red_rel fn zero st (send x c)"
  by (auto simp: red_rel_def can_send_def send_def split: list.splits option.splits)

lemma red_rel_close: "red_rel fn zero st c \<Longrightarrow> red_rel fn zero st (close c)"
  by (auto simp: red_rel_def close_def split: list.splits option.splits)

lemma red_inv_exec:
  assumes "fed w" "red_rel fn zero st (the_chan w)"
  shows "red_rel fn zero st (the_chan (exec e w))"
  using exec_chan_cases[OF assms(1), of e] assms(2)
  by (auto intro: red_rel_send red_rel_close)

lemma red_inv_iter:
  assumes "fed w" "red_rel fn zero st (the_chan w)"
  shows "fed (snd (Reduce_iter fn 0 p (st, w)))
       \<and> red_rel fn zero (fst (Reduce_iter fn 0 p (st, w))) (the_chan (snd (Reduce_iter fn 0 p (st, w))))"
  using assms
  by (auto simp: Reduce_iter_def fed_def the_chan_def red_rel_def peek_def pop_def upd_chan_def
      fold_calls_snoc Let_def
      split: list.splits option.splits)

lemma fed_fed_stream: "fed (fed_stream n)"
  by (simp add: fed_def fed_stream_def)

lemma Reduce_inv_drive:
  fixes w0 :: "('v, 'g) world"
  assumes "fed w0" "red_rel fn zero st0 (the_chan w0)"
    and "drive (Reduce_iter fn 0) sched (st0, w0) = (st, w)"
  shows "fed w \<and> red_rel fn zero st (the_chan w)"
proof -
  have "fed (snd (drive (Reduce_iter fn 0) sched (st0, w0)))
      \<and> red_rel fn zero (fst (drive (Reduce_iter fn 0) sched (st0, w0)))
          (the_chan (snd (drive (Reduce_iter fn 0) sched (st0, w0))))"
  proof (rule drive_invariant[where P = "\<lambda>x. fed (snd x) \<and> red_rel fn zero (fst x) (the_chan (snd x))"])
    show "fed (snd (st0, w0)) \<and> red_rel fn zero (fst (st0, w0)) (the_chan (snd (st0, w0)))"
      using assms(1,2) by simp
  next
    fix p and x :: "'v reduce_st \<times> ('v, 'g) world"
    assume "fed (snd x) \<and> red_rel fn zero (fst x) (the_chan (snd x))"
    then show "fed (snd (Reduce_iter fn 0 p x))
         \<and> red_rel fn zero (fst (Reduce_iter fn 0 p x)) (the_chan (snd (Reduce_iter fn 0 p x)))"
      using red_inv_iter[of "snd x" fn zero "fst x" p] by simp
  next
    fix e st and w :: "('v, 'g) world"
    assume "fed (snd (st, w)) \<and> red_rel fn zero (fst (st, w)) (the_chan (snd (st, w)))"
    then show "fed (snd (st, exec e w)) \<and> red_rel fn zero (fst (st, exec e w)) (the_chan (snd (st, exec e w)))"
      using fed_exec[of w e] red_inv_exec[of w fn zero st e] by simp
  qed
  then show ?thesis using assms(3) by simp
qed

lemma Reduce_inv:
  assumes "Reduce zero fn 0 sched (fed_stream n :: ('v, 'g) world) = (st, w)"
  shows "fed w \<and> red_rel fn zero st (the_chan w)"
  using assms unfolding Reduce_def
  by (rule Reduce_inv_drive[rotated 2])
     (simp_all add: fed_def red_rel_def the_chan_def fed_stream_def make_chan_def)

text \<open>Once the source is closed, the polls that drain the buffer and one more make Reduce return.\<close>

lemma Reduce_iter_drains:
  assumes "fed w" "closed (the_chan w)" "r_ret st = None"
  shows "r_ret (fst (drive (Reduce_iter fn 0) (replicate (Suc (length (buf (the_chan w)))) (Poll p)) (st, w))) \<noteq> None"
  using assms
proof (induction "length (buf (the_chan w))" arbitrary: st w)
  case 0
  then show ?case
    by (auto simp: Reduce_iter_def fed_def the_chan_def peek_def Let_def)
next
  case (Suc k)
  obtain x rest where b: "buf (the_chan w) = x # rest"
    using Suc.hyps(2) by (cases "buf (the_chan w)") auto
  obtain st' w' where it: "Reduce_iter fn 0 p (st, w) = (st', w')"
    by fastforce
  have "fed w'" "closed (the_chan w')" "r_ret st' = None" "buf (the_chan w') = rest"
    using it Suc.prems b
    by (auto simp: Reduce_iter_def fed_def the_chan_def peek_def pop_def upd_chan_def Let_def
        split: if_splits)
  moreover have "k = length rest" using Suc.hyps(2) b by simp
  ultimately have "r_ret (fst (drive (Reduce_iter fn 0) (replicate (Suc (length (buf (the_chan w')))) (Poll p)) (st', w'))) \<noteq> None"
    using Suc.hyps(1)[of w' st'] by simp
  then show ?case using it b \<open>buf (the_chan w') = rest\<close> by simp
qed

lemma Reduce_returns:
  assumes "Reduce zero fn 0 sched (fed_stream n :: ('v, 'g) world) = (st, w)" "closed (chans w ! 0)"
  shows "\<exists>k. r_ret (fst (Reduce zero fn 0 (sched @ replicate k (Poll p)) (fed_stream n :: ('v, 'g) world))) \<noteq> None"
proof (cases "r_ret st")
  case None
  have "fed w" using Reduce_inv[OF assms(1)] by simp
  then have "r_ret (fst (drive (Reduce_iter fn 0) (replicate (Suc (length (buf (the_chan w)))) (Poll p)) (st, w))) \<noteq> None"
    using Reduce_iter_drains[of w st fn p] assms(2) None by (simp add: the_chan_def)
  moreover have "Reduce zero fn 0 (sched @ replicate (Suc (length (buf (the_chan w)))) (Poll p)) (fed_stream n :: ('v, 'g) world)
      = drive (Reduce_iter fn 0) (replicate (Suc (length (buf (the_chan w)))) (Poll p)) (st, w)"
    using assms(1) unfolding Reduce_def drive_append by simp
  ultimately have "r_ret (fst (Reduce zero fn 0 (sched @ replicate (Suc (length (buf (the_chan w)))) (Poll p)) (fed_stream n :: ('v, 'g) world))) \<noteq> None"
    by simp
  then show ?thesis by blast
next
  case (Some r)
  then have "r_ret (fst (Reduce zero fn 0 (sched @ replicate 0 (Poll p)) (fed_stream n :: ('v, 'g) world))) \<noteq> None"
    using assms(1) by simp
  then show ?thesis by blast
qed

text \<open>
  C3. Whatever the source does and however its sends interleave with the loop of
  \<open>Reduce\<close>: when \<open>Reduce\<close> returns, its error is \<open>ErrEmptyStream\<close> exactly when
  the source yielded no element, the value is then the zero value, and after any element
  the error is nil. Once the source is closed, \<open>Reduce\<close> does return.
\<close>

theorem Reduce_empty_iff:
  assumes "Reduce zero fn 0 sched (fed_stream n :: ('v, 'g) world) = (st, w)"
  shows "(\<forall>v e. r_ret st = Some (v, e) \<longrightarrow>
            (e = Some ErrEmptyStream \<longleftrightarrow> sent (chans w ! 0) = [])
          \<and> (e = Some ErrEmptyStream \<longrightarrow> v = zero)
          \<and> (sent (chans w ! 0) \<noteq> [] \<longrightarrow> e = None))
       \<and> (closed (chans w ! 0) \<longrightarrow>
            (\<exists>k. r_ret (fst (Reduce zero fn 0 (sched @ replicate k (Poll p)) (fed_stream n :: ('v, 'g) world))) \<noteq> None))"
proof -
  have "red_rel fn zero st (chans w ! 0)"
    using Reduce_inv[OF assms] by (simp add: the_chan_def)
  then have "\<forall>v e. r_ret st = Some (v, e) \<longrightarrow>
            (e = Some ErrEmptyStream \<longleftrightarrow> sent (chans w ! 0) = [])
          \<and> (e = Some ErrEmptyStream \<longrightarrow> v = zero)
          \<and> (sent (chans w ! 0) \<noteq> [] \<longrightarrow> e = None)"
    by (auto simp: red_rel_def sent_def split: list.splits)
  then show ?thesis using Reduce_returns[OF assms] by blast
qed

theorem Reduce_empty_iff_witness:
  "r_ret (fst (Reduce (0::int) (+) 0 [Shut 0, Poll PickSource] (fed_stream 1 :: (int, unit)
      world))) = Some (0, Some ErrEmptyStream)
   \<and> sent (chans (snd (Reduce (0::int) (+) 0 [Shut 0, Poll PickSource] (fed_stream 1 :: (int,
      unit) world))) ! 0) = []
   \<and> r_ret (fst (Reduce (0::int) (+) 0 [Feed 0 5, Shut 0, Poll PickSource, Poll PickSource]
      (fed_stream 1 :: (int, unit) world))) = Some (5, None)
   \<and> sent (chans (snd (Reduce (0::int) (+) 0 [Feed 0 5, Shut 0, Poll PickSource, Poll
      PickSource] (fed_stream 1 :: (int, unit) world))) ! 0) = [5]"
proof -
  have a: "r_ret (fst (Reduce (0::int) (+) 0 [Shut 0, Poll PickSource] (fed_stream 1 :: (int, unit)
      world))) = Some (0, Some ErrEmptyStream)
     \<and> sent (chans (snd (Reduce (0::int) (+) 0 [Shut 0, Poll PickSource] (fed_stream 1 ::
      (int, unit) world))) ! 0) = []"
    using Reduce_empty_iff[of 0 "(+)" "[Shut 0, Poll PickSource]" 1
      "fst (Reduce (0::int) (+) 0 [Shut 0, Poll PickSource] (fed_stream 1 :: (int, unit) world))"
      "snd (Reduce (0::int) (+) 0 [Shut 0, Poll PickSource] (fed_stream 1 :: (int, unit) world))"]
    by (simp add: Reduce_def Reduce_iter_def fed_stream_def make_chan_def upd_chan_def peek_def
      pop_def
        can_send_def send_def close_def sent_def)
  have b: "r_ret (fst (Reduce (0::int) (+) 0 [Feed 0 5, Shut 0, Poll PickSource, Poll PickSource]
      (fed_stream 1 :: (int, unit) world))) = Some (5, None)
     \<and> sent (chans (snd (Reduce (0::int) (+) 0 [Feed 0 5, Shut 0, Poll PickSource, Poll
      PickSource] (fed_stream 1 :: (int, unit) world))) ! 0) = [5]"
    using Reduce_empty_iff[of 0 "(+)" "[Feed 0 5, Shut 0, Poll PickSource, Poll PickSource]" 1
      "fst (Reduce (0::int) (+) 0 [Feed 0 5, Shut 0, Poll PickSource, Poll PickSource] (fed_stream
      1 :: (int, unit) world))"
      "snd (Reduce (0::int) (+) 0 [Feed 0 5, Shut 0, Poll PickSource, Poll PickSource] (fed_stream
      1 :: (int, unit) world))"]
    by (simp add: Reduce_def Reduce_iter_def fed_stream_def make_chan_def upd_chan_def peek_def
      pop_def
        can_send_def send_def close_def sent_def)
  show ?thesis using a b by blast
qed

text \<open>
  C4. When the source yielded \<open>x, xs\<close> in this order, \<open>Reduce\<close> returns the left fold
  of \<open>fn\<close> over \<open>xs\<close> from \<open>x\<close> with a nil error, having called \<open>fn\<close> exactly as
  that fold does: first on \<open>x\<close> and the second element, and not at all when \<open>x\<close> is
  the only element.
\<close>

theorem Reduce_left_fold:
  assumes "Reduce zero fn 0 sched (fed_stream n :: ('v, 'g) world) = (st, w)"
  shows "(\<forall>v e x xs. r_ret st = Some (v, e) \<and> sent (chans w ! 0) = x # xs \<longrightarrow>
            v = foldl fn x xs \<and> e = None \<and> calls st = fold_calls fn x xs
            \<and> (xs = [] \<longrightarrow> v = x \<and> calls st = []))
       \<and> (closed (chans w ! 0) \<longrightarrow>
            (\<exists>k. r_ret (fst (Reduce zero fn 0 (sched @ replicate k (Poll p)) (fed_stream n :: ('v, 'g) world))) \<noteq> None))"
proof -
  have "red_rel fn zero st (chans w ! 0)"
    using Reduce_inv[OF assms] by (simp add: the_chan_def)
  then have "\<forall>v e x xs. r_ret st = Some (v, e) \<and> sent (chans w ! 0) = x # xs \<longrightarrow>
            v = foldl fn x xs \<and> e = None \<and> calls st = fold_calls fn x xs
            \<and> (xs = [] \<longrightarrow> v = x \<and> calls st = [])"
    by (auto simp: red_rel_def sent_def split: list.splits)
  then show ?thesis using Reduce_returns[OF assms] by blast
qed

theorem Reduce_left_fold_witness:
  "r_ret (fst (Reduce (0::int) (-) 0 [Feed 0 10, Feed 0 3, Poll PickSource, Feed 0 2, Shut 0, Poll
      PickSource, Poll PickSource, Poll PickSource] (fed_stream 2 :: (int, unit) world))) = Some
      (5, None)
   \<and> calls (fst (Reduce (0::int) (-) 0 [Feed 0 10, Feed 0 3, Poll PickSource, Feed 0 2, Shut
      0, Poll PickSource, Poll PickSource, Poll PickSource] (fed_stream 2 :: (int, unit) world))) =
      [(10, 3), (7, 2)]
   \<and> sent (chans (snd (Reduce (0::int) (-) 0 [Feed 0 10, Feed 0 3, Poll PickSource, Feed 0 2,
      Shut 0, Poll PickSource, Poll PickSource, Poll PickSource] (fed_stream 2 :: (int, unit)
      world))) ! 0) = [10, 3, 2]
   \<and> r_ret (fst (Reduce (0::int) (-) 0 [Feed 0 9, Shut 0, Poll PickSource, Poll PickSource]
      (fed_stream 2 :: (int, unit) world))) = Some (9, None)
   \<and> calls (fst (Reduce (0::int) (-) 0 [Feed 0 9, Shut 0, Poll PickSource, Poll PickSource]
      (fed_stream 2 :: (int, unit) world))) = []"
proof -
  have a: "r_ret (fst (Reduce (0::int) (-) 0 [Feed 0 10, Feed 0 3, Poll PickSource, Feed 0 2, Shut
      0, Poll PickSource, Poll PickSource, Poll PickSource] (fed_stream 2 :: (int, unit) world))) =
      Some (5, None)
     \<and> calls (fst (Reduce (0::int) (-) 0 [Feed 0 10, Feed 0 3, Poll PickSource, Feed 0 2, Shut
      0, Poll PickSource, Poll PickSource, Poll PickSource] (fed_stream 2 :: (int, unit) world))) =
      [(10, 3), (7, 2)]
     \<and> sent (chans (snd (Reduce (0::int) (-) 0 [Feed 0 10, Feed 0 3, Poll PickSource, Feed 0
      2, Shut 0, Poll PickSource, Poll PickSource, Poll PickSource] (fed_stream 2 :: (int, unit)
      world))) ! 0) = [10, 3, 2]"
    using Reduce_left_fold[of 0 "(-)" "[Feed 0 10, Feed 0 3, Poll PickSource, Feed 0 2, Shut 0,
      Poll PickSource, Poll PickSource, Poll PickSource]" 2
      "fst (Reduce (0::int) (-) 0 [Feed 0 10, Feed 0 3, Poll PickSource, Feed 0 2, Shut 0, Poll
      PickSource, Poll PickSource, Poll PickSource] (fed_stream 2 :: (int, unit) world))"
      "snd (Reduce (0::int) (-) 0 [Feed 0 10, Feed 0 3, Poll PickSource, Feed 0 2, Shut 0, Poll
      PickSource, Poll PickSource, Poll PickSource] (fed_stream 2 :: (int, unit) world))"]
    by (simp add: Reduce_def Reduce_iter_def fed_stream_def make_chan_def upd_chan_def peek_def
      pop_def
        can_send_def send_def close_def sent_def)
  have b: "r_ret (fst (Reduce (0::int) (-) 0 [Feed 0 9, Shut 0, Poll PickSource, Poll PickSource]
      (fed_stream 2 :: (int, unit) world))) = Some (9, None)
     \<and> calls (fst (Reduce (0::int) (-) 0 [Feed 0 9, Shut 0, Poll PickSource, Poll PickSource]
      (fed_stream 2 :: (int, unit) world))) = []"
    using Reduce_left_fold[of 0 "(-)" "[Feed 0 9, Shut 0, Poll PickSource, Poll PickSource]" 2
      "fst (Reduce (0::int) (-) 0 [Feed 0 9, Shut 0, Poll PickSource, Poll PickSource] (fed_stream
      2 :: (int, unit) world))"
      "snd (Reduce (0::int) (-) 0 [Feed 0 9, Shut 0, Poll PickSource, Poll PickSource] (fed_stream
      2 :: (int, unit) world))"]
    by (simp add: Reduce_def Reduce_iter_def fed_stream_def make_chan_def upd_chan_def peek_def
      pop_def
        can_send_def send_def close_def sent_def)
  show ?thesis using a b by blast
qed

subsection \<open>ForEach\<close>

lemma fe_inv_exec:
  assumes "fed w" "fe_rel fn u st (the_chan w)"
  shows "fe_rel fn u st (the_chan (exec e w))"
  using exec_chan_cases[OF assms(1), of e] assms(2)
  by (auto simp: fe_rel_def can_send_def send_def close_def split: option.splits)

lemma fe_inv_iter:
  assumes "fed w" "fe_rel fn u st (the_chan w)"
  shows "fed (snd (ForEach_iter fn 0 p (st, w)))
       \<and> fe_rel fn u (fst (ForEach_iter fn 0 p (st, w))) (the_chan (snd (ForEach_iter fn 0 p (st, w))))"
  using assms
  by (auto simp: ForEach_iter_def fed_def the_chan_def fe_rel_def peek_def pop_def upd_chan_def Let_def
      split: list.splits option.splits)

lemma ForEach_inv_drive:
  fixes w0 :: "('v, 'g) world" and fn :: "'v \<Rightarrow> 'u \<Rightarrow> 'u"
  assumes "fed w0" "fe_rel fn u st0 (the_chan w0)"
    and "drive (ForEach_iter fn 0) sched (st0, w0) = (st, w)"
  shows "fed w \<and> fe_rel fn u st (the_chan w)"
proof -
  have "fed (snd (drive (ForEach_iter fn 0) sched (st0, w0)))
      \<and> fe_rel fn u (fst (drive (ForEach_iter fn 0) sched (st0, w0)))
          (the_chan (snd (drive (ForEach_iter fn 0) sched (st0, w0))))"
  proof (rule drive_invariant[where P = "\<lambda>x. fed (snd x) \<and> fe_rel fn u (fst x) (the_chan (snd x))"])
    show "fed (snd (st0, w0)) \<and> fe_rel fn u (fst (st0, w0)) (the_chan (snd (st0, w0)))"
      using assms(1,2) by simp
  next
    fix p and x :: "('v, 'u) foreach_st \<times> ('v, 'g) world"
    assume "fed (snd x) \<and> fe_rel fn u (fst x) (the_chan (snd x))"
    then show "fed (snd (ForEach_iter fn 0 p x))
         \<and> fe_rel fn u (fst (ForEach_iter fn 0 p x)) (the_chan (snd (ForEach_iter fn 0 p x)))"
      using fe_inv_iter[of "snd x" fn u "fst x" p] by simp
  next
    fix e st and w :: "('v, 'g) world"
    assume "fed (snd (st, w)) \<and> fe_rel fn u (fst (st, w)) (the_chan (snd (st, w)))"
    then show "fed (snd (st, exec e w)) \<and> fe_rel fn u (fst (st, exec e w)) (the_chan (snd (st, exec e w)))"
      using fed_exec[of w e] fe_inv_exec[of w fn u st e] by simp
  qed
  then show ?thesis using assms(3) by simp
qed

lemma ForEach_inv:
  assumes "ForEach fn u 0 sched (fed_stream n) = (st, w)"
  shows "fed w \<and> fe_rel fn u st (the_chan w)"
  using assms unfolding ForEach_def
  by (rule ForEach_inv_drive[rotated 2])
     (simp_all add: fed_def fe_rel_def the_chan_def fed_stream_def make_chan_def)

lemma ForEach_iter_drains:
  assumes "fed w" "closed (the_chan w)" "f_ret st = None"
  shows "f_ret (fst (drive (ForEach_iter fn 0) (replicate (Suc (length (buf (the_chan w)))) (Poll p)) (st, w))) = Some None"
  using assms
proof (induction "length (buf (the_chan w))" arbitrary: st w)
  case 0
  then show ?case
    by (auto simp: ForEach_iter_def fed_def the_chan_def peek_def Let_def)
next
  case (Suc k)
  obtain x rest where b: "buf (the_chan w) = x # rest"
    using Suc.hyps(2) by (cases "buf (the_chan w)") auto
  obtain st' w' where it: "ForEach_iter fn 0 p (st, w) = (st', w')"
    by fastforce
  have "fed w'" "closed (the_chan w')" "f_ret st' = None" "buf (the_chan w') = rest"
    using it Suc.prems b
    by (auto simp: ForEach_iter_def fed_def the_chan_def peek_def pop_def upd_chan_def Let_def
        split: if_splits)
  moreover have "k = length rest" using Suc.hyps(2) b by simp
  ultimately have "f_ret (fst (drive (ForEach_iter fn 0) (replicate (Suc (length (buf (the_chan w')))) (Poll p)) (st', w'))) = Some None"
    using Suc.hyps(1)[of w' st'] by simp
  then show ?case using it b \<open>buf (the_chan w') = rest\<close> by simp
qed

lemma ForEach_iter_returned:
  "f_ret st = Some r \<Longrightarrow> drive (ForEach_iter fn 0) (replicate k (Poll p)) (st, w) = (st, w)"
  by (induction k) (auto simp: ForEach_iter_def)

lemma ForEach_returns:
  assumes "ForEach fn u 0 sched (fed_stream n :: ('v, 'g) world) = (st, w)" "closed (chans w ! 0)"
  shows "\<exists>k. f_ret (fst (ForEach fn u 0 (sched @ replicate k (Poll p)) (fed_stream n :: ('v, 'g) world))) = Some None"
proof (cases "f_ret st")
  case None
  have "fed w" using ForEach_inv[OF assms(1)] by simp
  then have "f_ret (fst (drive (ForEach_iter fn 0) (replicate (Suc (length (buf (the_chan w)))) (Poll p)) (st, w))) = Some None"
    using ForEach_iter_drains[of w st fn p] assms(2) None by (simp add: the_chan_def)
  moreover have "ForEach fn u 0 (sched @ replicate (Suc (length (buf (the_chan w)))) (Poll p)) (fed_stream n :: ('v, 'g) world)
      = drive (ForEach_iter fn 0) (replicate (Suc (length (buf (the_chan w)))) (Poll p)) (st, w)"
    using assms(1) unfolding ForEach_def drive_append by simp
  ultimately have "f_ret (fst (ForEach fn u 0 (sched @ replicate (Suc (length (buf (the_chan w)))) (Poll p)) (fed_stream n :: ('v, 'g) world))) = Some None"
    by simp
  then show ?thesis by blast
next
  case (Some r)
  have "fe_rel fn u st (the_chan w)" using ForEach_inv[OF assms(1)] by simp
  then have "r = None" using Some by (simp add: fe_rel_def)
  then have "f_ret (fst (ForEach fn u 0 (sched @ replicate 0 (Poll p)) (fed_stream n :: ('v, 'g) world))) = Some None"
    using assms(1) Some by simp
  then show ?thesis by blast
qed

text \<open>
  C9. At every moment the calls of \<open>fn\<close> are the elements received so far, one call
  each, in the order of arrival, and the outside state is their effects in that order.
  When \<open>ForEach\<close> returns, the source is closed, every element it yielded had its
  call, and the error is nil; once the source is closed, \<open>ForEach\<close> does return nil,
  also when nothing was yielded.
\<close>

theorem ForEach_once_each:
  assumes "ForEach fn u 0 sched (fed_stream n :: ('v, 'g) world) = (st, w)"
  shows "f_calls st = taken (chans w ! 0)
       \<and> ext st = foldl (\<lambda>a x. fn x a) u (f_calls st)
       \<and> (\<forall>r. f_ret st = Some r \<longrightarrow>
            r = None \<and> closed (chans w ! 0) \<and> f_calls st = sent (chans w ! 0))
       \<and> (closed (chans w ! 0) \<longrightarrow>
            (\<exists>k. f_ret (fst (ForEach fn u 0 (sched @ replicate k (Poll p)) (fed_stream n :: ('v, 'g) world))) = Some None))"
proof -
  have "fe_rel fn u st (chans w ! 0)"
    using ForEach_inv[OF assms] by (simp add: the_chan_def)
  then have "f_calls st = taken (chans w ! 0)
       \<and> ext st = foldl (\<lambda>a x. fn x a) u (f_calls st)
       \<and> (\<forall>r. f_ret st = Some r \<longrightarrow>
            r = None \<and> closed (chans w ! 0) \<and> f_calls st = sent (chans w ! 0))"
    by (auto simp: fe_rel_def sent_def)
  then show ?thesis using ForEach_returns[OF assms] by blast
qed

theorem ForEach_once_each_witness:
  "f_ret (fst (ForEach (\<lambda>x a. a + x) (0::int) 0 [Feed 0 4, Poll PickSource, Feed 0 5, Shut
      0, Poll PickSource, Poll PickSource] (fed_stream 1 :: (int, unit) world))) = Some None
   \<and> f_calls (fst (ForEach (\<lambda>x a. a + x) (0::int) 0 [Feed 0 4, Poll PickSource, Feed 0
      5, Shut 0, Poll PickSource, Poll PickSource] (fed_stream 1 :: (int, unit) world))) = [4, 5]
   \<and> ext (fst (ForEach (\<lambda>x a. a + x) (0::int) 0 [Feed 0 4, Poll PickSource, Feed 0 5,
      Shut 0, Poll PickSource, Poll PickSource] (fed_stream 1 :: (int, unit) world))) = 9
   \<and> f_ret (fst (ForEach (\<lambda>x a. a + x) (0::int) 0 [Shut 0, Poll PickSource]
      (fed_stream 1 :: (int, unit) world))) = Some None
   \<and> f_calls (fst (ForEach (\<lambda>x a. a + x) (0::int) 0 [Shut 0, Poll PickSource]
      (fed_stream 1 :: (int, unit) world))) = []"
proof -
  have a: "f_ret (fst (ForEach (\<lambda>x a. a + x) (0::int) 0 [Feed 0 4, Poll PickSource, Feed 0
      5, Shut 0, Poll PickSource, Poll PickSource] (fed_stream 1 :: (int, unit) world))) = Some None
     \<and> f_calls (fst (ForEach (\<lambda>x a. a + x) (0::int) 0 [Feed 0 4, Poll PickSource, Feed
      0 5, Shut 0, Poll PickSource, Poll PickSource] (fed_stream 1 :: (int, unit) world))) = [4, 5]
     \<and> ext (fst (ForEach (\<lambda>x a. a + x) (0::int) 0 [Feed 0 4, Poll PickSource, Feed 0
      5, Shut 0, Poll PickSource, Poll PickSource] (fed_stream 1 :: (int, unit) world))) = 9"
    using ForEach_once_each[of "(\<lambda>x a. a + x)" 0 "[Feed 0 4, Poll PickSource, Feed 0 5,
      Shut 0, Poll PickSource, Poll PickSource]" 1
      "fst (ForEach (\<lambda>x a. a + x) (0::int) 0 [Feed 0 4, Poll PickSource, Feed 0 5, Shut 0,
      Poll PickSource, Poll PickSource] (fed_stream 1 :: (int, unit) world))"
      "snd (ForEach (\<lambda>x a. a + x) (0::int) 0 [Feed 0 4, Poll PickSource, Feed 0 5, Shut 0,
      Poll PickSource, Poll PickSource] (fed_stream 1 :: (int, unit) world))"]
    by (simp add: ForEach_def ForEach_iter_def fed_stream_def make_chan_def upd_chan_def peek_def
      pop_def
        can_send_def send_def close_def sent_def)
  have b: "f_ret (fst (ForEach (\<lambda>x a. a + x) (0::int) 0 [Shut 0, Poll PickSource]
      (fed_stream 1 :: (int, unit) world))) = Some None
     \<and> f_calls (fst (ForEach (\<lambda>x a. a + x) (0::int) 0 [Shut 0, Poll PickSource]
      (fed_stream 1 :: (int, unit) world))) = []"
    using ForEach_once_each[of "(\<lambda>x a. a + x)" 0 "[Shut 0, Poll PickSource]" 1
      "fst (ForEach (\<lambda>x a. a + x) (0::int) 0 [Shut 0, Poll PickSource] (fed_stream 1 ::
      (int, unit) world))"
      "snd (ForEach (\<lambda>x a. a + x) (0::int) 0 [Shut 0, Poll PickSource] (fed_stream 1 ::
      (int, unit) world))"]
    by (simp add: ForEach_def ForEach_iter_def fed_stream_def make_chan_def upd_chan_def peek_def
      pop_def
        can_send_def send_def close_def sent_def)
  show ?thesis using a b by blast
qed

subsection \<open>Collect\<close>

lemma exec_ctx_fed:
  assumes "fed w"
  shows "ctx (exec e w) = (if fires e \<and> ctx w = None then ctx (exec e w) else ctx w)
       \<and> (ctx w \<noteq> None \<longrightarrow> ctx (exec e w) = ctx w)
       \<and> (\<not> fires e \<longrightarrow> ctx (exec e w) = ctx w)"
  using assms
  by (cases e) (auto simp: fed_def go_step_def child_step_def upd_chan_def split: option.splits)

lemma col_inv_exec:
  assumes "fed w" "col_rel st (the_chan w) (ctx w)"
  shows "col_rel st (the_chan (exec e w)) (ctx (exec e w))"
proof -
  have c: "ctx w \<noteq> None \<longrightarrow> ctx (exec e w) = ctx w"
    using exec_ctx_fed[OF assms(1), of e] by simp
  show ?thesis
    using exec_chan_cases[OF assms(1), of e] assms(2) c
    by (auto simp: col_rel_def can_send_def send_def close_def split: option.splits)
qed

lemma col_inv_iter:
  assumes "fed w" "col_rel st (the_chan w) (ctx w)"
  shows "fed (snd (Collect_iter 0 p (st, w)))
       \<and> col_rel (fst (Collect_iter 0 p (st, w))) (the_chan (snd (Collect_iter 0 p (st, w))))
           (ctx (snd (Collect_iter 0 p (st, w))))"
  using assms
  by (auto simp: Collect_iter_def fed_def the_chan_def col_rel_def peek_def pop_def upd_chan_def Let_def
      split: list.splits option.splits)

lemma Collect_inv_drive:
  fixes w0 :: "('v, 'g) world"
  assumes "fed w0" "col_rel st0 (the_chan w0) (ctx w0)"
    and "drive (Collect_iter 0) sched (st0, w0) = (st, w)"
  shows "fed w \<and> col_rel st (the_chan w) (ctx w)"
proof -
  have "fed (snd (drive (Collect_iter 0) sched (st0, w0)))
      \<and> col_rel (fst (drive (Collect_iter 0) sched (st0, w0)))
          (the_chan (snd (drive (Collect_iter 0) sched (st0, w0))))
          (ctx (snd (drive (Collect_iter 0) sched (st0, w0))))"
  proof (rule drive_invariant[where P = "\<lambda>x. fed (snd x) \<and> col_rel (fst x) (the_chan (snd x)) (ctx (snd x))"])
    show "fed (snd (st0, w0)) \<and> col_rel (fst (st0, w0)) (the_chan (snd (st0, w0))) (ctx (snd (st0, w0)))"
      using assms(1,2) by simp
  next
    fix p and x :: "'v collect_st \<times> ('v, 'g) world"
    assume "fed (snd x) \<and> col_rel (fst x) (the_chan (snd x)) (ctx (snd x))"
    then show "fed (snd (Collect_iter 0 p x))
         \<and> col_rel (fst (Collect_iter 0 p x)) (the_chan (snd (Collect_iter 0 p x))) (ctx (snd (Collect_iter 0 p x)))"
      using col_inv_iter[of "snd x" "fst x" p] by simp
  next
    fix e st and w :: "('v, 'g) world"
    assume "fed (snd (st, w)) \<and> col_rel (fst (st, w)) (the_chan (snd (st, w))) (ctx (snd (st, w)))"
    then show "fed (snd (st, exec e w)) \<and> col_rel (fst (st, exec e w)) (the_chan (snd (st, exec e w))) (ctx (snd (st, exec e w)))"
      using fed_exec[of w e] col_inv_exec[of w st e] by simp
  qed
  then show ?thesis using assms(3) by simp
qed

lemma Collect_inv:
  assumes "Collect_stream 0 sched (fed_stream n) = (st, w)"
  shows "fed w \<and> col_rel st (the_chan w) (ctx w)"
  using assms unfolding Collect_stream_def
  by (rule Collect_inv_drive[rotated 2])
     (simp_all add: fed_def col_rel_def the_chan_def fed_stream_def make_chan_def)

lemma Collect_ctx_quiet_drive:
  fixes w0 :: "('v, 'g) world"
  assumes "fed w0" "ctx w0 = None" "\<forall>e \<in> set sched. \<not> fires e"
    and "drive (Collect_iter 0) sched (st0, w0) = (st, w)"
  shows "ctx w = None"
proof -
  have "fed (snd (drive (Collect_iter 0) sched (st0, w0)))
      \<and> ctx (snd (drive (Collect_iter 0) sched (st0, w0))) = None"
  proof (rule drive_invariant[where P = "\<lambda>x. fed (snd x) \<and> ctx (snd x) = None"])
    show "fed (snd (st0, w0)) \<and> ctx (snd (st0, w0)) = None"
      using assms(1,2) by simp
  next
    fix p and x :: "'v collect_st \<times> ('v, 'g) world"
    assume "fed (snd x) \<and> ctx (snd x) = None"
    then show "fed (snd (Collect_iter 0 p x)) \<and> ctx (snd (Collect_iter 0 p x)) = None"
      by (cases x) (auto simp: Collect_iter_def fed_def upd_chan_def Let_def split: recv.splits)
  next
    fix e st and w :: "('v, 'g) world"
    assume "e \<in> set sched" "fed (snd (st, w)) \<and> ctx (snd (st, w)) = None"
    then show "fed (snd (st, exec e w)) \<and> ctx (snd (st, exec e w)) = None"
      using fed_exec[of w e] exec_ctx_fed[of w e] assms(3) by simp
  qed
  then show ?thesis using assms(4) by simp
qed

text \<open>
  C10. While the context never fires, \<open>Collect\<close> returns only a nil error, with
  everything the source yielded, and only once the source is closed. When the source is
  closed and has yielded nothing, the next iteration returns the empty sequence and a nil
  error.
\<close>

theorem Collect_empty_ok:
  assumes "Collect_stream 0 sched (fed_stream n :: ('v, 'g) world) = (st, w)"
    and "\<forall>e \<in> set sched. \<not> fires e"
  shows "(\<forall>r. c_ret st = Some r \<longrightarrow> r = (sent (chans w ! 0), None) \<and> closed (chans w ! 0))
       \<and> (c_ret st = None \<and> closed (chans w ! 0) \<and> sent (chans w ! 0) = [] \<longrightarrow>
            c_ret (fst (Collect_stream 0 (sched @ [Poll p]) (fed_stream n :: ('v, 'g) world)))
              = Some ([], None))"
proof -
  have inv: "fed w" "col_rel st (chans w ! 0) (ctx w)"
    using Collect_inv[OF assms(1)] by (simp_all add: the_chan_def)
  have quiet: "ctx w = None"
    using assms unfolding Collect_stream_def
    by (rule_tac Collect_ctx_quiet_drive[where ?w0.0 = "fed_stream n" and sched = sched])
       (simp_all add: fed_def fed_stream_def)
  have a: "\<forall>r. c_ret st = Some r \<longrightarrow> r = (sent (chans w ! 0), None) \<and> closed (chans w ! 0)"
    using inv(2) quiet by (auto simp: col_rel_def sent_def split: option.splits)
  have step: "Collect_stream 0 (sched @ [Poll p]) (fed_stream n :: ('v, 'g) world) = Collect_iter 0 p (st, w)"
    using assms(1) unfolding Collect_stream_def drive_append by simp
  have b: "c_ret st = None \<and> closed (chans w ! 0) \<and> sent (chans w ! 0) = [] \<longrightarrow>
            c_ret (fst (Collect_iter 0 p (st, w))) = Some ([], None)"
    using inv quiet
    by (auto simp: Collect_iter_def fed_def col_rel_def sent_def peek_def Let_def)
  show ?thesis using a b step by simp
qed

theorem Collect_empty_ok_witness:
  "c_ret (fst (Collect_stream 0 [Poll PickSource, Shut 0] (fed_stream 1 :: (int, unit) world))) =
      None
   \<and> closed (chans (snd (Collect_stream 0 [Poll PickSource, Shut 0] (fed_stream 1 :: (int,
      unit) world))) ! 0)
   \<and> c_ret (fst (Collect_stream 0 [Poll PickSource, Shut 0, Poll PickDone] (fed_stream 1 ::
      (int, unit) world))) = Some ([], None)
   \<and> closed (chans (snd (Collect_stream 0 [Poll PickSource, Shut 0, Poll PickDone] (fed_stream
      1 :: (int, unit) world))) ! 0)"
proof -
  have a: "c_ret (fst (Collect_stream 0 [Poll PickSource, Shut 0] (fed_stream 1 :: (int, unit)
      world))) = None
     \<and> closed (chans (snd (Collect_stream 0 [Poll PickSource, Shut 0] (fed_stream 1 :: (int,
      unit) world))) ! 0)
     \<and> c_ret (fst (Collect_stream 0 [Poll PickSource, Shut 0, Poll PickDone] (fed_stream 1 ::
      (int, unit) world))) = Some ([], None)"
    using Collect_empty_ok[of "[Poll PickSource, Shut 0]" 1
      "fst (Collect_stream 0 [Poll PickSource, Shut 0] (fed_stream 1 :: (int, unit) world))"
      "snd (Collect_stream 0 [Poll PickSource, Shut 0] (fed_stream 1 :: (int, unit) world))"
      PickDone]
    by (simp add: Collect_stream_def Collect_iter_def fed_stream_def make_chan_def upd_chan_def
      peek_def
        pop_def can_send_def send_def close_def sent_def)
  have b: "closed (chans (snd (Collect_stream 0 [Poll PickSource, Shut 0, Poll PickDone]
      (fed_stream 1 :: (int, unit) world))) ! 0)"
    using Collect_empty_ok[of "[Poll PickSource, Shut 0, Poll PickDone]" 1
      "fst (Collect_stream 0 [Poll PickSource, Shut 0, Poll PickDone] (fed_stream 1 :: (int, unit)
      world))"
      "snd (Collect_stream 0 [Poll PickSource, Shut 0, Poll PickDone] (fed_stream 1 :: (int, unit)
      world))" PickDone]
    by (simp add: Collect_stream_def Collect_iter_def fed_stream_def make_chan_def upd_chan_def
      peek_def
        pop_def can_send_def send_def close_def sent_def)
  show ?thesis using a b by blast
qed

text \<open>
  C2 does not hold as stated. Here the context fires while \<open>Collect\<close> has received
  nothing yet and the element \<open>7\<close> waits in the channel; both cases of the \<open>select\<close>
  are ready in each of the two iterations that follow, the receive is taken, and
  \<open>Collect\<close> returns the sequence with a nil error.
\<close>

theorem Collect_cancel_counterexample:
  "c_ret (fst (Collect_stream 0 [Feed 0 7, Fire Canceled]
        (fed_stream 1 :: (int, unit) world))) = None
   \<and> ctx (snd (Collect_stream 0 [Feed 0 7, Fire Canceled]
        (fed_stream 1 :: (int, unit) world))) = Some Canceled
   \<and> c_ret (fst (Collect_stream 0 [Feed 0 7, Fire Canceled, Poll PickSource, Shut 0, Poll PickSource]
        (fed_stream 1 :: (int, unit) world))) = Some ([7], None)"
  by (simp add: Collect_stream_def Collect_iter_def fed_stream_def make_chan_def upd_chan_def peek_def pop_def
      can_send_def send_def close_def sent_def)

text \<open>
  C2, amended. An error of \<open>Collect\<close> is the error of the fired context and comes with
  the nil sequence; a nil error comes with everything the source yielded, after its close:
  the partly built sequence is never returned. Once the context has fired, an iteration
  returns its error with the nil sequence when the source has nothing ready, or when the
  \<open>select\<close> takes the cancellation case.
\<close>

theorem Collect_cancel_amended:
  assumes "Collect_stream 0 sched (fed_stream n :: ('v, 'g) world) = (st, w)"
  shows "(\<forall>xs err. c_ret st = Some (xs, Some err) \<longrightarrow>
            xs = [] \<and> (\<exists>e. ctx w = Some e \<and> err = CtxErr e))
       \<and> (\<forall>xs. c_ret st = Some (xs, None) \<longrightarrow> xs = sent (chans w ! 0) \<and> closed (chans w ! 0))
       \<and> (\<forall>e. c_ret st = None \<and> ctx w = Some e \<and> (peek (chans w ! 0) = Blocked \<or> p = PickDone) \<longrightarrow>
            c_ret (fst (Collect_stream 0 (sched @ [Poll p]) (fed_stream n :: ('v, 'g) world)))
              = Some ([], Some (CtxErr e)))"
proof -
  have inv: "fed w" "col_rel st (chans w ! 0) (ctx w)"
    using Collect_inv[OF assms(1)] by (simp_all add: the_chan_def)
  have a: "\<forall>xs err. c_ret st = Some (xs, Some err) \<longrightarrow>
            xs = [] \<and> (\<exists>e. ctx w = Some e \<and> err = CtxErr e)"
    using inv(2) by (auto simp: col_rel_def)
  have b: "\<forall>xs. c_ret st = Some (xs, None) \<longrightarrow> xs = sent (chans w ! 0) \<and> closed (chans w ! 0)"
    using inv(2) by (auto simp: col_rel_def sent_def)
  have step: "Collect_stream 0 (sched @ [Poll p]) (fed_stream n :: ('v, 'g) world) = Collect_iter 0 p (st, w)"
    using assms(1) unfolding Collect_stream_def drive_append by simp
  have c: "\<forall>e. c_ret st = None \<and> ctx w = Some e \<and> (peek (chans w ! 0) = Blocked \<or> p = PickDone) \<longrightarrow>
            c_ret (fst (Collect_iter 0 p (st, w))) = Some ([], Some (CtxErr e))"
    using inv(1)
    by (auto simp: Collect_iter_def fed_def Let_def)
  show ?thesis using a b c step by simp
qed

theorem Collect_cancel_amended_witness:
  "c_ret (fst (Collect_stream 0 [Feed 0 7, Poll PickSource, Feed 0 8, Fire DeadlineExceeded]
      (fed_stream 1 :: (int, unit) world))) = None
   \<and> result (fst (Collect_stream 0 [Feed 0 7, Poll PickSource, Feed 0 8, Fire
      DeadlineExceeded] (fed_stream 1 :: (int, unit) world))) = [7]
   \<and> c_ret (fst (Collect_stream 0 [Feed 0 7, Poll PickSource, Feed 0 8, Fire DeadlineExceeded,
      Poll PickDone] (fed_stream 1 :: (int, unit) world))) = Some ([], Some (CtxErr
      DeadlineExceeded))
   \<and> ctx (snd (Collect_stream 0 [Feed 0 7, Poll PickSource, Feed 0 8, Fire DeadlineExceeded,
      Poll PickDone] (fed_stream 1 :: (int, unit) world))) = Some DeadlineExceeded
   \<and> c_ret (fst (Collect_stream 0 [Fire Canceled, Poll PickSource] (fed_stream 1 :: (int,
      unit) world))) = Some ([], Some (CtxErr Canceled))
   \<and> c_ret (fst (Collect_stream 0 [Feed 0 7, Shut 0, Poll PickSource, Poll PickSource]
      (fed_stream 1 :: (int, unit) world))) = Some ([7], None)"
proof -
  have a: "c_ret (fst (Collect_stream 0 [Feed 0 7, Poll PickSource, Feed 0 8, Fire
      DeadlineExceeded] (fed_stream 1 :: (int, unit) world))) = None
     \<and> result (fst (Collect_stream 0 [Feed 0 7, Poll PickSource, Feed 0 8, Fire
      DeadlineExceeded] (fed_stream 1 :: (int, unit) world))) = [7]
     \<and> c_ret (fst (Collect_stream 0 [Feed 0 7, Poll PickSource, Feed 0 8, Fire
      DeadlineExceeded, Poll PickDone] (fed_stream 1 :: (int, unit) world))) = Some ([], Some
      (CtxErr DeadlineExceeded))"
    using Collect_cancel_amended[of "[Feed 0 7, Poll PickSource, Feed 0 8, Fire DeadlineExceeded]" 1
      "fst (Collect_stream 0 [Feed 0 7, Poll PickSource, Feed 0 8, Fire DeadlineExceeded]
      (fed_stream 1 :: (int, unit) world))"
      "snd (Collect_stream 0 [Feed 0 7, Poll PickSource, Feed 0 8, Fire DeadlineExceeded]
      (fed_stream 1 :: (int, unit) world))" PickDone]
    by (simp add: Collect_stream_def Collect_iter_def fed_stream_def make_chan_def upd_chan_def
      peek_def
        pop_def can_send_def send_def close_def sent_def)
  have b: "ctx (snd (Collect_stream 0 [Feed 0 7, Poll PickSource, Feed 0 8, Fire DeadlineExceeded,
      Poll PickDone] (fed_stream 1 :: (int, unit) world))) = Some DeadlineExceeded"
    using Collect_cancel_amended[of "[Feed 0 7, Poll PickSource, Feed 0 8, Fire DeadlineExceeded,
      Poll PickDone]" 1
      "fst (Collect_stream 0 [Feed 0 7, Poll PickSource, Feed 0 8, Fire DeadlineExceeded, Poll
      PickDone] (fed_stream 1 :: (int, unit) world))"
      "snd (Collect_stream 0 [Feed 0 7, Poll PickSource, Feed 0 8, Fire DeadlineExceeded, Poll
      PickDone] (fed_stream 1 :: (int, unit) world))" PickDone]
    by (simp add: Collect_stream_def Collect_iter_def fed_stream_def make_chan_def upd_chan_def
      peek_def
        pop_def can_send_def send_def close_def sent_def)
  have c: "c_ret (fst (Collect_stream 0 [Fire Canceled, Poll PickSource] (fed_stream 1 :: (int,
      unit) world))) = Some ([], Some (CtxErr Canceled))"
    using Collect_cancel_amended[of "[Fire Canceled]" 1
      "fst (Collect_stream 0 [Fire Canceled] (fed_stream 1 :: (int, unit) world))"
      "snd (Collect_stream 0 [Fire Canceled] (fed_stream 1 :: (int, unit) world))" PickSource]
    by (simp add: Collect_stream_def Collect_iter_def fed_stream_def make_chan_def upd_chan_def
      peek_def
        pop_def can_send_def send_def close_def sent_def)
  have d: "c_ret (fst (Collect_stream 0 [Feed 0 7, Shut 0, Poll PickSource, Poll PickSource]
      (fed_stream 1 :: (int, unit) world))) = Some ([7], None)"
    using Collect_cancel_amended[of "[Feed 0 7, Shut 0, Poll PickSource, Poll PickSource]" 1
      "fst (Collect_stream 0 [Feed 0 7, Shut 0, Poll PickSource, Poll PickSource] (fed_stream 1 ::
      (int, unit) world))"
      "snd (Collect_stream 0 [Feed 0 7, Shut 0, Poll PickSource, Poll PickSource] (fed_stream 1 ::
      (int, unit) world))" PickDone]
    by (simp add: Collect_stream_def Collect_iter_def fed_stream_def make_chan_def upd_chan_def
      peek_def
        pop_def can_send_def send_def close_def sent_def)
  show ?thesis using a b c d by blast
qed

subsection \<open>Slice, stage and Collect\<close>

lemma drive_Cons_one: "drive iter (e # es) x = drive iter es (one iter e x)"
  by (simp add: one_def)

lemma holding_apply_body: "holding (apply_body fn x) = emit fn x"
  by (cases fn) (auto simp: apply_body_def)

lemma apply_body_not_exit: "apply_body fn x \<noteq> LoopExit"
  by (cases fn) (auto simp: apply_body_def)

lemma emit_small: "2 * length (emit fn x) < 3"
  by (cases fn) auto

lemma active_0_exit: "active pool = 0 \<Longrightarrow> pool \<noteq> [] \<Longrightarrow> LoopExit \<in> set pool"
  by (cases pool) (auto simp: active_def split: if_splits)

lemma active_0_held: "active pool = 0 \<Longrightarrow> concat (map holding pool) = []"
  by (induction pool) (auto simp: active_def split: if_splits)

lemma outs_snoc: "outs fn (xs @ [x]) = outs fn xs @ emit fn x"
  by (simp add: outs_def)

lemma Good_literal:
  assumes "Good S fn N (st, w)"
  obtains c0 c1 rest fin pc wg pool where
    "w = \<lparr>chans = [c0, c1], objs = [\<lparr>source = 0, workers = N\<rparr>, \<lparr>source = 1, workers = N\<rparr>],
          gos = [SliceG 0 rest fin, StageG fn 0 1 pc wg pool], ctx = None\<rparr>"
proof -
  from assms have "layout N fn w" by (simp add: Good_def)
  then obtain c0 c1 rest fin pc wg pool where
    "chans w = [c0, c1]" "objs w = [\<lparr>source = 0, workers = N\<rparr>, \<lparr>source = 1, workers = N\<rparr>]"
    "gos w = [SliceG 0 rest fin, StageG fn 0 1 pc wg pool]" "ctx w = None"
    by (auto simp: layout_def)
  then have "w = \<lparr>chans = [c0, c1], objs = [\<lparr>source = 0, workers = N\<rparr>, \<lparr>source = 1, workers = N\<rparr>],
          gos = [SliceG 0 rest fin, StageG fn 0 1 pc wg pool], ctx = None\<rparr>"
    by (cases w) simp
  then show ?thesis using that by blast
qed

lemmas comp_defs = layout_def sl_rest_def sl_fin_def st_pc_def st_wg_def st_pool_def held_def ctl_def

lemma Good_slice:
  assumes "Good S fn N (st, w)"
  shows "Good S fn N (st, go_step 0 w) \<and> (mu N (st, go_step 0 w) < mu N (st, w) \<or> go_step 0 w = w)"
proof -
  obtain c0 c1 rest fin pc wg pool where
    w: "w = \<lparr>chans = [c0, c1], objs = [\<lparr>source = 0, workers = N\<rparr>, \<lparr>source = 1, workers = N\<rparr>],
          gos = [SliceG 0 rest fin, StageG fn 0 1 pc wg pool], ctx = None\<rparr>"
    using Good_literal[OF assms] by blast
  show ?thesis
    using assms unfolding w
    by (auto simp: Good_def mu_def comp_defs go_step_def set_go_def upd_chan_def
        can_send_def send_def close_def sent_def
        split: list.splits outer_pc.splits option.splits)
qed

lemma Good_outer:
  assumes "Good S fn N (st, w)"
  shows "Good S fn N (st, go_step 1 w) \<and> (mu N (st, go_step 1 w) < mu N (st, w) \<or> go_step 1 w = w)"
proof -
  obtain c0 c1 rest fin pc wg pool where
    w: "w = \<lparr>chans = [c0, c1], objs = [\<lparr>source = 0, workers = N\<rparr>, \<lparr>source = 1, workers = N\<rparr>],
          gos = [SliceG 0 rest fin, StageG fn 0 1 pc wg pool], ctx = None\<rparr>"
    using Good_literal[OF assms] by blast
  show ?thesis
  proof (cases pc)
    case Entry
    then show ?thesis using assms unfolding w
      by (auto simp: Good_def mu_def comp_defs pcw_def active_def go_step_def set_go_def)
  next
    case (SeqLoop l)
    then show ?thesis using assms unfolding w
      by (cases l)
         (auto simp: Good_def mu_def comp_defs pcw_def active_def go_step_def set_go_def upd_chan_def loop_step_def
          peek_def pop_def can_send_def send_def close_def sent_def
          holding_apply_body apply_body_not_exit outs_snoc emit_small
          split: list.splits option.splits)
  next
    case (Spawn i)
    then show ?thesis using assms unfolding w
      by (auto simp: Good_def mu_def comp_defs pcw_def active_def go_step_def set_go_def)
  next
    case Wait
    show ?thesis
    proof (cases "wg = 0")
      case True
      have a: "active pool = 0" "pool \<noteq> []"
        using assms True Wait unfolding w by (auto simp: Good_def comp_defs)
      have "LoopExit \<in> set pool" "concat (map holding pool) = []"
        using a active_0_exit active_0_held by blast+
      then show ?thesis using assms Wait True a unfolding w
        by (auto simp: Good_def mu_def comp_defs pcw_def go_step_def set_go_def upd_chan_def close_def sent_def)
    next
      case False
      then show ?thesis using assms Wait unfolding w
        by (auto simp: Good_def mu_def comp_defs go_step_def)
    qed
  next
    case Returned
    then show ?thesis using assms unfolding w
      by (auto simp: Good_def mu_def comp_defs go_step_def)
  qed
qed

lemma held_update_mset:
  "k < length pool \<Longrightarrow>
   mset (concat (map holding (pool[k := l']))) + mset (holding (pool ! k))
     = mset (concat (map holding pool)) + mset (holding l')"
proof (induction pool arbitrary: k)
  case Nil
  then show ?case by simp
next
  case (Cons a pool)
  then show ?case by (cases k) auto
qed

lemma held_update_len:
  assumes "k < length pool"
  shows "length (concat (map holding (pool[k := l']))) + length (holding (pool ! k))
     = length (concat (map holding pool)) + length (holding l')"
proof -
  have "size (mset (concat (map holding (pool[k := l']))) + mset (holding (pool ! k)))
      = size (mset (concat (map holding pool)) + mset (holding l'))"
    using held_update_mset[OF assms, of l'] by simp
  then show ?thesis by simp
qed

lemma active_update:
  "k < length pool \<Longrightarrow> pool ! k \<noteq> LoopExit \<Longrightarrow>
   active (pool[k := l']) + 1 = active pool + (if l' = LoopExit then 0 else 1)"
proof (induction pool arbitrary: k)
  case Nil
  then show ?case by simp
next
  case (Cons a pool)
  then show ?case by (cases k) (auto simp: active_def)
qed

lemma exit_in_update:
  "LoopExit \<in> set (pool[k := l']) \<Longrightarrow> l' \<noteq> LoopExit \<Longrightarrow> LoopExit \<in> set pool"
  using set_update_subset_insert[of pool k l'] by auto

lemma massoc: "(a :: 'v multiset) + b + c = a + (b + c)"
  by (simp add: add.assoc)

lemma Good_child:
  assumes "Good S fn N (st, w)"
  shows "Good S fn N (st, child_step 1 k w)
       \<and> (mu N (st, child_step 1 k w) < mu N (st, w) \<or> child_step 1 k w = w)"
proof -
  obtain c0 c1 rest fin pc wg pool where
    w: "w = \<lparr>chans = [c0, c1], objs = [\<lparr>source = 0, workers = N\<rparr>, \<lparr>source = 1, workers = N\<rparr>],
          gos = [SliceG 0 rest fin, StageG fn 0 1 pc wg pool], ctx = None\<rparr>"
    using Good_literal[OF assms] by blast
  show ?thesis
  proof (cases "k < length pool \<and> pool ! k \<noteq> LoopExit")
    case False
    then have "child_step 1 k w = w" unfolding w by (auto simp: child_step_def)
    then show ?thesis using assms by simp
  next
    case True
    then have k: "k < length pool" and nx: "pool ! k \<noteq> LoopExit" by simp_all
    have N1: "N \<noteq> 1" and pcs: "pc \<noteq> Entry" "\<And>l. pc \<noteq> SeqLoop l"
      using assms k unfolding w by (auto simp: Good_def comp_defs split: outer_pc.splits if_splits)
    have act: "0 < active pool"
      using active_update[OF k nx, of LoopExit] by simp
    have pcR: "pc \<noteq> Returned"
      using assms act unfolding w by (auto simp: Good_def comp_defs)
    have hm: "\<And>l'. mset (concat (map holding (pool[k := l']))) + mset (holding (pool ! k))
        = mset (concat (map holding pool)) + mset (holding l')"
      using held_update_mset[OF k] by simp
    have hl: "\<And>l'. length (concat (map holding (pool[k := l']))) + length (holding (pool ! k))
        = length (concat (map holding pool)) + length (holding l')"
      using held_update_len[OF k] by simp
    have au: "\<And>l'. active (pool[k := l']) + 1 = active pool + (if l' = LoopExit then 0 else 1)"
      using active_update[OF k nx] by simp
    show ?thesis
    proof (cases "pool ! k")
      case LoopHead
      show ?thesis
      proof (cases "peek c0")
        case (Item x)
        then obtain xs where b: "buf c0 = x # xs"
          by (auto simp: peek_def split: list.splits if_splits)
        show ?thesis
          using assms k N1 pcs pcR LoopHead b hm[of "apply_body fn x"] hl[of "apply_body fn x"]
            au[of "apply_body fn x"] exit_in_update[of pool k "apply_body fn x"]
          unfolding w
          by (auto simp: Good_def mu_def comp_defs child_step_def set_go_def upd_chan_def loop_step_def
              peek_def pop_def sent_def holding_apply_body apply_body_not_exit outs_snoc emit_small
              massoc
              split: outer_pc.splits)
      next
        case Closed
        then have b: "buf c0 = []" "closed c0"
          by (auto simp: peek_def split: list.splits if_splits)
        show ?thesis
          using assms k N1 pcs pcR LoopHead b hm[of LoopExit] hl[of LoopExit] au[of LoopExit]
          unfolding w
          by (auto simp: Good_def mu_def comp_defs child_step_def set_go_def upd_chan_def loop_step_def
              peek_def sent_def massoc
              split: outer_pc.splits)
      next
        case Blocked
        then have b: "buf c0 = []" "\<not> closed c0"
          by (auto simp: peek_def split: list.splits if_splits)
        have "pool[k := LoopHead] = pool"
          using LoopHead k by (simp add: list_update_same_conv)
        then have "child_step 1 k w = w"
          using k LoopHead b unfolding w
          by (simp add: child_step_def set_go_def loop_step_def peek_def)
        then show ?thesis using assms by simp
      qed
    next
      case (Sending y)
      show ?thesis
      proof (cases "can_send c1")
        case True
        show ?thesis
          using assms k N1 pcs pcR Sending True hm[of LoopHead, symmetric] hl[of LoopHead, symmetric]
            au[of LoopHead]
            exit_in_update[of pool k LoopHead]
          unfolding w
          by (auto simp: Good_def mu_def comp_defs child_step_def set_go_def upd_chan_def loop_step_def
              can_send_def send_def sent_def massoc
              split: outer_pc.splits)
      next
        case False
        have "pool[k := Sending y] = pool"
          using Sending k by (simp add: list_update_same_conv)
        then have "child_step 1 k w = w"
          using k Sending False unfolding w
          by (simp add: child_step_def set_go_def loop_step_def)
        then show ?thesis using assms by simp
      qed
    next
      case LoopExit
      then show ?thesis using nx by simp
    qed
  qed
qed

lemma Good_poll:
  assumes "Good S fn N (st, w)"
  shows "Good S fn N (Collect_iter 1 p (st, w))
       \<and> (mu N (Collect_iter 1 p (st, w)) < mu N (st, w) \<or> Collect_iter 1 p (st, w) = (st, w))"
proof -
  obtain c0 c1 rest fin pc wg pool where
    w: "w = \<lparr>chans = [c0, c1], objs = [\<lparr>source = 0, workers = N\<rparr>, \<lparr>source = 1, workers = N\<rparr>],
          gos = [SliceG 0 rest fin, StageG fn 0 1 pc wg pool], ctx = None\<rparr>"
    using Good_literal[OF assms] by blast
  show ?thesis
  proof (cases "c_ret st")
    case (Some r)
    then have "Collect_iter 1 p (st, w) = (st, w)" by (simp add: Collect_iter_def)
    then show ?thesis using assms by simp
  next
    case None
    show ?thesis
    proof (cases "peek c1")
      case (Item x)
      then obtain xs where b: "buf c1 = x # xs"
        by (auto simp: peek_def split: list.splits if_splits)
      show ?thesis using assms None b unfolding w
        by (auto simp: Good_def mu_def comp_defs Collect_iter_def upd_chan_def peek_def pop_def sent_def
            split: outer_pc.splits)
    next
      case Closed
      then have b: "buf c1 = []" "closed c1"
        by (auto simp: peek_def split: list.splits if_splits)
      show ?thesis using assms None b unfolding w
        by (auto simp: Good_def mu_def comp_defs Collect_iter_def peek_def sent_def
            split: outer_pc.splits)
    next
      case Blocked
      then have "Collect_iter 1 p (st, w) = (st, w)"
        using None unfolding w by (simp add: Collect_iter_def)
      then show ?thesis using assms by simp
    qed
  qed
qed

lemma Good_idle:
  assumes "Good S fn N (st, w)"
  shows "2 \<le> q \<longrightarrow> go_step q w = w" "q \<noteq> 1 \<longrightarrow> child_step q k w = w"
proof -
  obtain c0 c1 rest fin pc wg pool where
    w: "w = \<lparr>chans = [c0, c1], objs = [\<lparr>source = 0, workers = N\<rparr>, \<lparr>source = 1, workers = N\<rparr>],
          gos = [SliceG 0 rest fin, StageG fn 0 1 pc wg pool], ctx = None\<rparr>"
    using Good_literal[OF assms] by blast
  show "2 \<le> q \<longrightarrow> go_step q w = w"
    unfolding w by (simp add: go_step_def)
  show "q \<noteq> 1 \<longrightarrow> child_step q k w = w"
    unfolding w by (cases q) (auto simp: child_step_def)
qed

lemma Good_one:
  assumes "Good S fn N x" "internal e"
  shows "Good S fn N (one (Collect_iter 1) e x)
       \<and> (mu N (one (Collect_iter 1) e x) < mu N x \<or> one (Collect_iter 1) e x = x)"
proof -
  obtain st w where x: "x = (st, w)" by (cases x)
  show ?thesis
  proof (cases e)
    case (Run q)
    consider "q = 0" | "q = 1" | "2 \<le> q" by linarith
    then show ?thesis
    proof cases
      case 1
      then show ?thesis using assms(1) Run Good_slice[of S fn N st w] by (simp add: x one_def)
    next
      case 2
      then show ?thesis using assms(1) Run Good_outer[of S fn N st w] by (simp add: x one_def)
    next
      case 3
      then show ?thesis using assms(1) Run Good_idle(1)[of S fn N st w q] by (simp add: x one_def)
    qed
  next
    case (RunChild q k)
    show ?thesis
    proof (cases "q = 1")
      case True
      then show ?thesis using assms(1) RunChild Good_child[of S fn N st w k] by (simp add: x one_def)
    next
      case False
      then show ?thesis using assms(1) RunChild Good_idle(2)[of S fn N st w q k] by (simp add: x one_def)
    qed
  next
    case (Poll p)
    then show ?thesis using assms(1) Good_poll[of S fn N st w p] by (simp add: x one_def)
  qed (use assms(2) in simp_all)
qed

text \<open>While Collect has not returned, some goroutine can move.\<close>

lemma obs_neq: "obs y \<noteq> obs x \<Longrightarrow> y \<noteq> x"
  by auto

lemma Good_progress:
  assumes "Good S fn N (st, w)" "c_ret st = None"
  shows "\<exists>e. internal e \<and> one (Collect_iter 1) e (st, w) \<noteq> (st, w)"
proof -
  obtain c0 c1 rest fin pc wg pool where
    w: "w = \<lparr>chans = [c0, c1], objs = [\<lparr>source = 0, workers = N\<rparr>, \<lparr>source = 1, workers = N\<rparr>],
          gos = [SliceG 0 rest fin, StageG fn 0 1 pc wg pool], ctx = None\<rparr>"
    using Good_literal[OF assms(1)] by blast
  have poll: "peek c1 \<noteq> Blocked \<Longrightarrow> obs (one (Collect_iter 1) (Poll PickSource) (st, w)) \<noteq> obs (st, w)"
    using assms(2) unfolding w
    by (cases "peek c1") (auto simp: obs_def one_def Collect_iter_def upd_chan_def peek_def pop_def split: list.splits if_splits)
  have slice: "peek c0 = Blocked \<Longrightarrow> obs (one (Collect_iter 1) (Run 0) (st, w)) \<noteq> obs (st, w)"
    using assms(1) unfolding w
    by (auto simp: obs_def one_def Good_def comp_defs go_step_def set_go_def upd_chan_def peek_def can_send_def
        send_def close_def sent_def split: list.splits if_splits)
  show ?thesis
  proof (cases "peek c1 = Blocked")
    case False
    then show ?thesis using poll obs_neq by (intro exI[of _ "Poll PickSource"]) auto
  next
    case True
    then have c1: "buf c1 = []" "\<not> closed c1"
      by (auto simp: peek_def split: list.splits if_splits)
    have room: "can_send c1"
      using assms(1) c1 unfolding w by (auto simp: Good_def comp_defs can_send_def)
    show ?thesis
    proof (cases "peek c0 = Blocked")
      case True
      then show ?thesis using slice obs_neq by (intro exI[of _ "Run 0"]) auto
    next
      case ready: False
      show ?thesis
      proof (cases pc)
        case Entry
        then have "obs (one (Collect_iter 1) (Run 1) (st, w)) \<noteq> obs (st, w)"
          unfolding w by (simp add: obs_def one_def go_step_def set_go_def)
        then show ?thesis using obs_neq by (intro exI[of _ "Run 1"]) auto
      next
        case (SeqLoop l)
        have "l \<noteq> LoopExit" using assms(1) SeqLoop unfolding w by (auto simp: Good_def comp_defs)
        then have "obs (one (Collect_iter 1) (Run 1) (st, w)) \<noteq> obs (st, w)"
          using SeqLoop ready room unfolding w
          by (cases l; cases "peek c0")
             (auto simp: obs_def one_def go_step_def set_go_def loop_step_def upd_chan_def apply_body_not_exit
               peek_def pop_def send_def close_def split: list.splits if_splits)
        then show ?thesis using obs_neq by (intro exI[of _ "Run 1"]) auto
      next
        case (Spawn i)
        then have "obs (one (Collect_iter 1) (Run 1) (st, w)) \<noteq> obs (st, w)"
          unfolding w by (simp add: obs_def one_def go_step_def set_go_def)
        then show ?thesis using obs_neq by (intro exI[of _ "Run 1"]) auto
      next
        case Wait
        show ?thesis
        proof (cases "wg = 0")
          case True
          then have "obs (one (Collect_iter 1) (Run 1) (st, w)) \<noteq> obs (st, w)"
            using Wait unfolding w by (simp add: obs_def one_def go_step_def set_go_def upd_chan_def)
          then show ?thesis using obs_neq by (intro exI[of _ "Run 1"]) auto
        next
          case False
          then have "active pool \<noteq> 0"
            using assms(1) unfolding w by (auto simp: Good_def comp_defs)
          then obtain l where "l \<in> set pool" "l \<noteq> LoopExit"
            by (auto simp: active_def filter_empty_conv)
          then obtain k where k: "k < length pool" "pool ! k \<noteq> LoopExit"
            by (auto simp: in_set_conv_nth)
          have "obs (one (Collect_iter 1) (RunChild 1 k) (st, w)) \<noteq> obs (st, w)"
          proof (cases "pool ! k")
            case LoopHead
            then have ne: "\<And>l'. l' \<noteq> LoopHead \<Longrightarrow> pool[k := l'] \<noteq> pool"
              using k by (metis nth_list_update_eq)
            show ?thesis
              using k LoopHead ready ne[of LoopExit] unfolding w
              by (cases "peek c0")
                 (auto simp: obs_def one_def child_step_def set_go_def loop_step_def upd_chan_def
                    peek_def pop_def split: list.splits if_splits)
          next
            case (Sending y)
            then have ne: "pool[k := LoopHead] \<noteq> pool"
              using k by (metis nth_list_update_eq loop.distinct(1))
            show ?thesis
              using k Sending room ne unfolding w
              by (auto simp: obs_def one_def child_step_def set_go_def loop_step_def upd_chan_def)
          next
            case LoopExit
            then show ?thesis using k by simp
          qed
          then show ?thesis using obs_neq by (intro exI[of _ "RunChild 1 k"]) auto
        qed
      next
        case Returned
        then show ?thesis using assms(1) c1 unfolding w by (auto simp: Good_def comp_defs)
      qed
    qed
  qed
qed

lemma drive_measure:
  assumes step: "\<And>x e. I x \<Longrightarrow> ok e \<Longrightarrow>
      I (one iter e x) \<and> (m (one iter e x) < (m x :: nat) \<or> one iter e x = x)"
    and "I x" "\<forall>e \<in> set es. ok e"
  shows "I (drive iter es x) \<and> moves iter es x + m (drive iter es x) \<le> m x"
  using assms(2,3)
proof (induction es arbitrary: x)
  case Nil
  then show ?case by simp
next
  case (Cons e es)
  have one: "I (one iter e x)" "m (one iter e x) < m x \<or> one iter e x = x"
    using step[of x e] Cons.prems by simp_all
  have ih: "I (drive iter es (one iter e x))
       \<and> moves iter es (one iter e x) + m (drive iter es (one iter e x)) \<le> m (one iter e x)"
    using Cons.IH[OF one(1)] Cons.prems(2) by simp
  show ?case
  proof (cases "one iter e x = x")
    case True
    then show ?thesis using ih by (simp add: drive_Cons_one del: drive.simps)
  next
    case False
    then have "m (one iter e x) < m x" using one(2) by simp
    then show ?thesis using ih False by (simp add: drive_Cons_one del: drive.simps)
  qed
qed

lemma drive_finish:
  assumes step: "\<And>x e. I x \<Longrightarrow> ok e \<Longrightarrow>
      I (one iter e x) \<and> (m (one iter e x) < (m x :: nat) \<or> one iter e x = x)"
    and progress: "\<And>x. I x \<Longrightarrow> \<not> fin x \<Longrightarrow> \<exists>e. ok e \<and> one iter e x \<noteq> x"
    and "I x"
  shows "\<exists>es. (\<forall>e \<in> set es. ok e) \<and> fin (drive iter es x)"
  using assms(3)
proof (induction "m x" arbitrary: x rule: less_induct)
  case less
  show ?case
  proof (cases "fin x")
    case True
    then have "(\<forall>e \<in> set []. ok e) \<and> fin (drive iter [] x)" by simp
    then show ?thesis by blast
  next
    case False
    then obtain e where e: "ok e" "one iter e x \<noteq> x"
      using progress less.prems by blast
    have "I (one iter e x)" "m (one iter e x) < m x"
      using step[of x e] less.prems e by auto
    then obtain es where es: "\<forall>e \<in> set es. ok e" "fin (drive iter es (one iter e x))"
      using less.hyps by blast
    have "(\<forall>a \<in> set (e # es). ok a) \<and> fin (drive iter (e # es) x)"
      using e(1) es by (simp add: drive_Cons_one del: drive.simps)
    then show ?thesis by blast
  qed
qed

lemma Good_drive:
  assumes "Good S fn N x" "\<forall>e \<in> set es. internal e"
  shows "Good S fn N (drive (Collect_iter 1) es x)
       \<and> moves (Collect_iter 1) es x + mu N (drive (Collect_iter 1) es x) \<le> mu N x"
  using drive_measure[where I = "Good S fn N" and ok = internal and m = "mu N" and iter = "Collect_iter 1",
      OF Good_one assms] .

lemma Good_finish:
  assumes "Good S fn N x"
  shows "\<exists>es. (\<forall>e \<in> set es. internal e) \<and> c_ret (fst (drive (Collect_iter 1) es x)) \<noteq> None"
proof (rule drive_finish[where I = "Good S fn N" and ok = internal and m = "mu N"
      and iter = "Collect_iter 1" and fin = "\<lambda>x. c_ret (fst x) \<noteq> None"])
  show "Good S fn N x" by (rule assms)
next
  fix x :: "'a collect_st \<times> ('a, 'b) world" and e :: "'a event"
  assume "Good S fn N x" "internal e"
  then show "Good S fn N (one (Collect_iter 1) e x)
      \<and> (mu N (one (Collect_iter 1) e x) < mu N x \<or> one (Collect_iter 1) e x = x)"
    by (rule Good_one)
next
  fix x :: "'a collect_st \<times> ('a, 'b) world"
  assume a: "Good S fn N x" "\<not> c_ret (fst x) \<noteq> None"
  have "Good S fn N (fst x, snd x)" using a(1) by simp
  moreover have "c_ret (fst x) = None" using a(2) by blast
  ultimately show "\<exists>e. internal e \<and> one (Collect_iter 1) e x \<noteq> x"
    using Good_progress[of S fn N "fst x" "snd x"] by simp
qed

lemma Good_closed:
  assumes "Good S fn N (st, w)" "closed (chans w ! 1)"
  shows "mset (sent (chans w ! 1)) = mset (outs fn S)"
    and "N = 1 \<longrightarrow> sent (chans w ! 1) = outs fn S"
    and "closed (chans w ! 0) \<and> buf (chans w ! 0) = []"
    and "N \<noteq> 1 \<longrightarrow> int (length (st_pool w)) = N \<and> (\<forall>l \<in> set (st_pool w). l = LoopExit)"
proof -
  have pc: "st_pc w = Returned"
    using assms by (auto simp: Good_def ctl_def split: outer_pc.splits)
  then have r: "active (st_pool w) = 0" "closed (chans w ! 0)" "buf (chans w ! 0) = []"
    "if N = 1 then st_pool w = [] else int (length (st_pool w)) = N"
    using assms(1) by (auto simp: Good_def ctl_def)
  have h: "held w = []"
    using pc active_0_held[OF r(1)] by (simp add: held_def)
  have "sl_rest w = []" using assms(1) r(2) by (auto simp: Good_def)
  then have t: "taken (chans w ! 0) = S"
    using assms(1) r(3) by (auto simp: Good_def sent_def)
  show "mset (sent (chans w ! 1)) = mset (outs fn S)"
    using assms(1) h t by (auto simp: Good_def)
  show "N = 1 \<longrightarrow> sent (chans w ! 1) = outs fn S"
    using assms(1) h t by (auto simp: Good_def)
  show "closed (chans w ! 0) \<and> buf (chans w ! 0) = []" using r by simp
  show "N \<noteq> 1 \<longrightarrow> int (length (st_pool w)) = N \<and> (\<forall>l \<in> set (st_pool w). l = LoopExit)"
    using r(1,4) by (auto simp: active_def filter_empty_conv)
qed

lemma Good_returned:
  assumes "Good S fn N (st, w)" "c_ret st = Some r"
  shows "snd r = None \<and> mset (fst r) = mset (outs fn S) \<and> (N = 1 \<longrightarrow> fst r = outs fn S)"
proof -
  have "\<forall>r. c_ret st = Some r \<longrightarrow>
      r = (taken (chans w ! 1), None) \<and> closed (chans w ! 1) \<and> buf (chans w ! 1) = []"
    using assms(1) unfolding Good_def by simp
  then have c: "r = (taken (chans w ! 1), None)" "closed (chans w ! 1)" "buf (chans w ! 1) = []"
    using assms(2) by blast+
  then have "sent (chans w ! 1) = fst r" by (simp add: sent_def)
  then show ?thesis using Good_closed(1,2)[OF assms(1) c(2)] c(1) by auto
qed

lemma outs_MapFn: "outs (MapFn f) S = map f S"
  by (induction S) (auto simp: outs_def)

lemma outs_FilterFn: "outs (FilterFn p) S = filter p S"
  by (induction S) (auto simp: outs_def)

lemma ex_not: "Ex Not"
  by (rule exI[of _ False]) simp

lemma pre_slice_exec:
  assumes "pre_slice S N w" "internal e"
  shows "pre_slice S N (exec e w)"
proof -
  obtain c0 rest fin where
    w: "w = \<lparr>chans = [c0], objs = [\<lparr>source = 0, workers = N\<rparr>], gos = [SliceG 0 rest fin], ctx = None\<rparr>"
    and f: "S = buf c0 @ rest" "taken c0 = []" "closed c0 = fin" "fin \<longrightarrow> rest = []" "cap c0 = length S"
    using assms(1) unfolding pre_slice_def by blast
  show ?thesis
  proof (cases e)
    case (Run q)
    then show ?thesis using f unfolding w
      by (cases q)
         (auto simp: pre_slice_def go_step_def set_go_def upd_chan_def can_send_def send_def close_def
            split: list.splits)
  next
    case (RunChild q k)
    then show ?thesis using f unfolding w
      by (cases q) (auto simp: pre_slice_def child_step_def)
  next
    case (Poll p)
    then show ?thesis using assms(1) by simp
  qed (use assms(2) in simp_all)
qed


lemma pre_slice_run:
  assumes "pre_slice S N w" "\<forall>e \<in> set es. internal e"
  shows "pre_slice S N (run es w)"
  using assms
proof (induction es arbitrary: w)
  case Nil
  then show ?case by (simp add: run_def)
next
  case (Cons e es)
  then have "pre_slice S N (exec e w)" using pre_slice_exec by auto
  then have "pre_slice S N (run es (exec e w))" using Cons by simp
  then show ?case by (simp add: run_def)
qed

lemma pre_slice_New:
  assumes "NewSliceStream S world0 = (s, w1)"
  shows "s = 0" "pre_slice S 1 w1"
proof -
  have w1: "w1 = \<lparr>chans = [make_chan (length S)], objs = [\<lparr>source = 0, workers = 1\<rparr>],
      gos = [SliceG 0 S False], ctx = None\<rparr>" and s: "s = 0"
    using assms by (simp_all add: NewSliceStream_def world0_def)
  show "s = 0" by (rule s)
  show "pre_slice S 1 w1"
    unfolding pre_slice_def w1
    by (rule exI[of _ "make_chan (length S)"], rule exI[of _ S], rule exI[of _ False])
       (simp add: make_chan_def)
qed

lemma pre_slice_Parallel:
  assumes "pre_slice S N w" "Parallel n 0 w = (s', w')"
  shows "s' = 0" "pre_slice S (if n \<le> 0 then 1 else n) w'"
proof -
  obtain c0 rest fin where
    w: "w = \<lparr>chans = [c0], objs = [\<lparr>source = 0, workers = N\<rparr>], gos = [SliceG 0 rest fin], ctx = None\<rparr>"
    and f: "S = buf c0 @ rest" "taken c0 = []" "closed c0 = fin" "fin \<longrightarrow> rest = []" "cap c0 = length S"
    using assms(1) unfolding pre_slice_def by blast
  have w': "w' = \<lparr>chans = [c0], objs = [\<lparr>source = 0, workers = (if n \<le> 0 then 1 else n)\<rparr>],
      gos = [SliceG 0 rest fin], ctx = None\<rparr>" and s: "s' = 0"
    using assms(2) unfolding w by (simp_all add: Parallel_def)
  show "s' = 0" by (rule s)
  show "pre_slice S (if n \<le> 0 then 1 else n) w'"
    unfolding pre_slice_def w'
    by (rule exI[of _ c0], rule exI[of _ rest], rule exI[of _ fin]) (use f in simp)
qed

lemma pre_slice_stage:
  assumes "pre_slice S N w" "1 \<le> N" "stage fn 0 w = (m, w2)"
  shows "m = 1"
    "Good S fn N (\<lparr>result = [], c_ret = None\<rparr>, w2)"
    "mu N (\<lparr>result = [], c_ret = None\<rparr>, w2) \<le> 4 * length S + 2 * nat N + 6"
proof -
  obtain c0 rest fin where
    w: "w = \<lparr>chans = [c0], objs = [\<lparr>source = 0, workers = N\<rparr>], gos = [SliceG 0 rest fin], ctx = None\<rparr>"
    and f: "S = buf c0 @ rest" "taken c0 = []" "closed c0 = fin" "fin \<longrightarrow> rest = []" "cap c0 = length S"
    using assms(1) unfolding pre_slice_def by blast
  have w2: "w2 = \<lparr>chans = [c0, make_chan (nat N)],
      objs = [\<lparr>source = 0, workers = N\<rparr>, \<lparr>source = 1, workers = N\<rparr>],
      gos = [SliceG 0 rest fin, StageG fn 0 1 Entry 0 []], ctx = None\<rparr>" and m: "m = 1"
    using assms(3) unfolding w by (auto simp: stage_def)
  show "m = 1" by (rule m)
  have lay: "layout N fn w2"
    unfolding layout_def w2 by simp
  show "Good S fn N (\<lparr>result = [], c_ret = None\<rparr>, w2)"
    using lay assms(2) f
    by (simp add: Good_def) (simp add: w2 sl_rest_def sl_fin_def st_pc_def st_wg_def st_pool_def held_def
        ctl_def active_def make_chan_def sent_def outs_def)
  show "mu N (\<lparr>result = [], c_ret = None\<rparr>, w2) \<le> 4 * length S + 2 * nat N + 6"
    using f
    by (simp add: mu_def w2 sl_rest_def sl_fin_def st_pc_def st_pool_def held_def pcw_def active_def
        make_chan_def)
qed

lemma Good_chan_of:
  assumes "Good S fn N (st, w)"
  shows "chan_of 0 w = chans w ! 0" "chan_of (Suc 0) w = chans w ! Suc 0"
  using assms by (auto simp: Good_def layout_def chan_of_def)

text \<open>What every schedule of the package's goroutines gives for slice, stage and Collect.\<close>

lemma pipeline_run:
  assumes "Good S fn N (\<lparr>result = [], c_ret = None\<rparr>, w2)"
    and "Collect_stream 1 sched w2 = (st, w)" "\<forall>e \<in> set sched. internal e"
  shows "Good S fn N (st, w)"
    and "moves (Collect_iter 1) sched (\<lparr>result = [], c_ret = None\<rparr>, w2)
          \<le> mu N (\<lparr>result = [], c_ret = None\<rparr>, w2)"
    and "\<exists>more r. (\<forall>e \<in> set more. internal e)
          \<and> c_ret (fst (Collect_stream 1 (sched @ more) w2)) = Some r
          \<and> snd r = None \<and> mset (fst r) = mset (outs fn S) \<and> (N = 1 \<longrightarrow> fst r = outs fn S)"
proof -
  have d: "Good S fn N (drive (Collect_iter 1) sched (\<lparr>result = [], c_ret = None\<rparr>, w2))
       \<and> moves (Collect_iter 1) sched (\<lparr>result = [], c_ret = None\<rparr>, w2)
           + mu N (drive (Collect_iter 1) sched (\<lparr>result = [], c_ret = None\<rparr>, w2))
         \<le> mu N (\<lparr>result = [], c_ret = None\<rparr>, w2)"
    using Good_drive[OF assms(1) assms(3)] .
  show g: "Good S fn N (st, w)"
    using d assms(2) by (simp add: Collect_stream_def)
  show "moves (Collect_iter 1) sched (\<lparr>result = [], c_ret = None\<rparr>, w2)
          \<le> mu N (\<lparr>result = [], c_ret = None\<rparr>, w2)"
    using d by simp
  obtain more where more: "\<forall>e \<in> set more. internal e"
    "c_ret (fst (drive (Collect_iter 1) more (st, w))) \<noteq> None"
    using Good_finish[OF g] by blast
  obtain st' w' where fin: "drive (Collect_iter 1) more (st, w) = (st', w')"
    by fastforce
  then obtain r where r: "c_ret st' = Some r" using more(2) by auto
  have "Good S fn N (st', w')"
    using Good_drive[OF g more(1)] fin by simp
  then have res: "snd r = None \<and> mset (fst r) = mset (outs fn S) \<and> (N = 1 \<longrightarrow> fst r = outs fn S)"
    using Good_returned r by blast
  have "Collect_stream 1 (sched @ more) w2 = (st', w')"
    using assms(2) fin by (simp add: Collect_stream_def drive_append)
  then have "(\<forall>e \<in> set more. internal e)
          \<and> c_ret (fst (Collect_stream 1 (sched @ more) w2)) = Some r
          \<and> snd r = None \<and> mset (fst r) = mset (outs fn S) \<and> (N = 1 \<longrightarrow> fst r = outs fn S)"
    using more(1) r res by simp
  then show "\<exists>more r. (\<forall>e \<in> set more. internal e)
          \<and> c_ret (fst (Collect_stream 1 (sched @ more) w2)) = Some r
          \<and> snd r = None \<and> mset (fst r) = mset (outs fn S) \<and> (N = 1 \<longrightarrow> fst r = outs fn S)"
    by blast
qed

text \<open>
  C1. \<open>NewSliceStream(S).Map(f).Collect(ctx)\<close> with the worker count \<open>1\<close> of a new
  stream and a context that never fires, under every schedule of the three goroutines
  (\<open>pre\<close> is what the producer does before \<open>Map\<close> is called):
  whenever \<open>Collect\<close> has returned, it has returned \<open>map f S\<close> and a nil error; from
  every state a schedule can reach, it can still return, and then returns that; while it
  has not returned some goroutine can move (no deadlock); and no schedule makes more than
  \<open>4 * length S + 8\<close> steps that change the state, so a schedule that keeps moving
  makes \<open>Collect\<close> return.
\<close>

theorem Map_sequential:
  assumes "NewSliceStream S world0 = (s, w1)"
    and "\<forall>e \<in> set pre. internal e" "Map f s (run pre w1) = (m, w2)"
    and "Collect_stream m sched w2 = (st, w)" "\<forall>e \<in> set sched. internal e"
  shows "(\<forall>r. c_ret st = Some r \<longrightarrow> r = (map f S, None))
       \<and> (\<exists>more. (\<forall>e \<in> set more. internal e)
            \<and> c_ret (fst (Collect_stream m (sched @ more) w2)) = Some (map f S, None))
       \<and> (c_ret st = None \<longrightarrow> (\<exists>e. internal e \<and> one (Collect_iter m) e (st, w) \<noteq> (st, w)))
       \<and> moves (Collect_iter m) sched (\<lparr>result = [], c_ret = None\<rparr>, w2) \<le> 4 * length S + 8"
proof -
  have s: "s = 0" using pre_slice_New(1)[OF assms(1)] .
  have p0: "pre_slice S 1 (run pre w1)"
    using pre_slice_run[OF pre_slice_New(2)[OF assms(1)] assms(2)] .
  have st: "stage (MapFn f) 0 (run pre w1) = (m, w2)" using assms(3) by (simp add: Map_def s)
  have m: "m = 1" using pre_slice_stage(1)[OF p0 _ st] by simp
  have g0: "Good S (MapFn f) 1 (\<lparr>result = [], c_ret = None\<rparr>, w2)"
    using pre_slice_stage(2)[OF p0 _ st] by simp
  note run = pipeline_run[OF g0 assms(4)[unfolded m] assms(5)]
  have a: "\<forall>r. c_ret st = Some r \<longrightarrow> r = (map f S, None)"
    using Good_returned[OF run(1)] by (auto simp: outs_MapFn prod_eq_iff)
  have b: "\<exists>more. (\<forall>e \<in> set more. internal e)
            \<and> c_ret (fst (Collect_stream 1 (sched @ more) w2)) = Some (map f S, None)"
    using run(3) by (auto simp: outs_MapFn prod_eq_iff)
  have c: "moves (Collect_iter 1) sched (\<lparr>result = [], c_ret = None\<rparr>, w2) \<le> 4 * length S + 8"
    using run(2) pre_slice_stage(3)[OF p0 _ st] by simp
  have d: "c_ret st = None \<longrightarrow> (\<exists>e. internal e \<and> one (Collect_iter 1) e (st, w) \<noteq> (st, w))"
    using Good_progress[OF run(1)] by blast
  show ?thesis using a b c d unfolding m by blast
qed

text \<open>
  C5. The same for \<open>NewSliceStream(S).Filter(p).Collect(ctx)\<close>: the result is the
  elements of \<open>S\<close> that satisfy \<open>p\<close>, in the order of \<open>S\<close>.
\<close>

theorem Filter_sequential:
  assumes "NewSliceStream S world0 = (s, w1)"
    and "\<forall>e \<in> set pre. internal e" "Filter p s (run pre w1) = (m, w2)"
    and "Collect_stream m sched w2 = (st, w)" "\<forall>e \<in> set sched. internal e"
  shows "(\<forall>r. c_ret st = Some r \<longrightarrow> r = (filter p S, None))
       \<and> (\<exists>more. (\<forall>e \<in> set more. internal e)
            \<and> c_ret (fst (Collect_stream m (sched @ more) w2)) = Some (filter p S, None))
       \<and> (c_ret st = None \<longrightarrow> (\<exists>e. internal e \<and> one (Collect_iter m) e (st, w) \<noteq> (st, w)))
       \<and> moves (Collect_iter m) sched (\<lparr>result = [], c_ret = None\<rparr>, w2) \<le> 4 * length S + 8"
proof -
  have s: "s = 0" using pre_slice_New(1)[OF assms(1)] .
  have p0: "pre_slice S 1 (run pre w1)"
    using pre_slice_run[OF pre_slice_New(2)[OF assms(1)] assms(2)] .
  have st: "stage (FilterFn p) 0 (run pre w1) = (m, w2)" using assms(3) by (simp add: Filter_def s)
  have m: "m = 1" using pre_slice_stage(1)[OF p0 _ st] by simp
  have g0: "Good S (FilterFn p) 1 (\<lparr>result = [], c_ret = None\<rparr>, w2)"
    using pre_slice_stage(2)[OF p0 _ st] by simp
  note run = pipeline_run[OF g0 assms(4)[unfolded m] assms(5)]
  have a: "\<forall>r. c_ret st = Some r \<longrightarrow> r = (filter p S, None)"
    using Good_returned[OF run(1)] by (auto simp: outs_FilterFn prod_eq_iff)
  have b: "\<exists>more. (\<forall>e \<in> set more. internal e)
            \<and> c_ret (fst (Collect_stream 1 (sched @ more) w2)) = Some (filter p S, None)"
    using run(3) by (auto simp: outs_FilterFn prod_eq_iff)
  have c: "moves (Collect_iter 1) sched (\<lparr>result = [], c_ret = None\<rparr>, w2) \<le> 4 * length S + 8"
    using run(2) pre_slice_stage(3)[OF p0 _ st] by simp
  have d: "c_ret st = None \<longrightarrow> (\<exists>e. internal e \<and> one (Collect_iter 1) e (st, w) \<noteq> (st, w))"
    using Good_progress[OF run(1)] by blast
  show ?thesis using a b c d unfolding m by blast
qed

text \<open>
  C6. \<open>NewSliceStream(S).Parallel(n)\<close> with \<open>n > 1\<close>, then a stage (\<open>Map f\<close> is
  \<open>stage (MapFn f)\<close>, \<open>Filter p\<close> is \<open>stage (FilterFn p)\<close>) and \<open>Collect\<close>, under
  every schedule, the producer running between the calls as well. Once the downstream channel is closed, everything sent on it is, as a
  multiset, what the body makes of \<open>S\<close>; all \<open>n\<close> workers were started and have left
  their loop, and the upstream channel is closed and drained. It is the multiset the same
  stage sends with worker count \<open>1\<close> (the second run, under any schedule of its own).
  \<open>Collect\<close> returns that multiset with a nil error and can always still return;
  while it has not returned some goroutine can move, and no schedule makes more than
  \<open>4 * length S + 2 * n + 6\<close> steps that change the state.
\<close>

theorem Parallel_stage_multiset:
  assumes "1 < n"
    and "NewSliceStream S world0 = (s, w1)"
    and "\<forall>e \<in> set pre1. internal e" "Parallel n s (run pre1 w1) = (s', w1')"
    and "\<forall>e \<in> set pre2. internal e" "stage fn s' (run pre2 w1') = (m, w2)"
    and "Collect_stream m sched w2 = (st, w)" "\<forall>e \<in> set sched. internal e"
    and "\<forall>e \<in> set pre3. internal e" "stage fn s (run pre3 w1) = (m1, v2)"
    and "Collect_stream m1 sched1 v2 = (st1, v)" "\<forall>e \<in> set sched1. internal e"
  shows "(closed (chan_of m w) \<longrightarrow>
            mset (sent (chan_of m w)) = mset (outs fn S)
            \<and> int (length (st_pool w)) = n \<and> (\<forall>l \<in> set (st_pool w). l = LoopExit)
            \<and> closed (chan_of s w) \<and> buf (chan_of s w) = [])
       \<and> (closed (chan_of m w) \<and> closed (chan_of m1 v) \<longrightarrow>
            mset (sent (chan_of m w)) = mset (sent (chan_of m1 v)))
       \<and> (\<forall>r. c_ret st = Some r \<longrightarrow> snd r = None \<and> mset (fst r) = mset (outs fn S))
       \<and> (\<exists>more r. (\<forall>e \<in> set more. internal e)
            \<and> c_ret (fst (Collect_stream m (sched @ more) w2)) = Some r
            \<and> snd r = None \<and> mset (fst r) = mset (outs fn S))
       \<and> (c_ret st = None \<longrightarrow> (\<exists>e. internal e \<and> one (Collect_iter m) e (st, w) \<noteq> (st, w)))
       \<and> moves (Collect_iter m) sched (\<lparr>result = [], c_ret = None\<rparr>, w2)
            \<le> 4 * length S + 2 * nat n + 6"
proof -
  have n1: "1 \<le> n" "n \<noteq> 1" "(if n \<le> 0 then 1 else n) = n" using assms(1) by simp_all
  have s: "s = 0" using pre_slice_New(1)[OF assms(2)] .
  have p1: "pre_slice S 1 (run pre1 w1)"
    using pre_slice_run[OF pre_slice_New(2)[OF assms(2)] assms(3)] .
  have s': "s' = 0" using pre_slice_Parallel(1)[OF p1 assms(4)[unfolded s]] .
  have p2: "pre_slice S n (run pre2 w1')"
    using pre_slice_run[OF pre_slice_Parallel(2)[OF p1 assms(4)[unfolded s]] assms(5)] n1(3) by simp
  note st = assms(6)[unfolded s']
  have m: "m = 1" using pre_slice_stage(1)[OF p2 n1(1) st] .
  note ids = s m
  note g0 = pre_slice_stage(2)[OF p2 n1(1) st]
  note run = pipeline_run[OF g0 assms(7)[unfolded m] assms(8)]
  have p3: "pre_slice S 1 (run pre3 w1)"
    using pre_slice_run[OF pre_slice_New(2)[OF assms(2)] assms(9)] .
  note st1 = assms(10)[unfolded s]
  have m1: "m1 = 1" using pre_slice_stage(1)[OF p3 _ st1] by simp
  have h0: "Good S fn 1 (\<lparr>result = [], c_ret = None\<rparr>, v2)"
    using pre_slice_stage(2)[OF p3 _ st1] by simp
  note run1 = pipeline_run[OF h0 assms(11)[unfolded m1] assms(12)]
  have a: "closed (chan_of 1 w) \<longrightarrow>
            mset (sent (chan_of 1 w)) = mset (outs fn S)
            \<and> int (length (st_pool w)) = n \<and> (\<forall>l \<in> set (st_pool w). l = LoopExit)
            \<and> closed (chan_of 0 w) \<and> buf (chan_of 0 w) = []"
    using Good_closed[OF run(1)] n1(2) by (simp add: Good_chan_of[OF run(1)])
  have b: "closed (chan_of 1 w) \<and> closed (chan_of 1 v) \<longrightarrow>
            mset (sent (chan_of 1 w)) = mset (sent (chan_of 1 v))"
    using Good_closed(1)[OF run(1)] Good_closed(1)[OF run1(1)]
    by (simp add: Good_chan_of[OF run(1)] Good_chan_of[OF run1(1)])
  have c: "\<forall>r. c_ret st = Some r \<longrightarrow> snd r = None \<and> mset (fst r) = mset (outs fn S)"
    using Good_returned[OF run(1)] by blast
  have d: "\<exists>more r. (\<forall>e \<in> set more. internal e)
            \<and> c_ret (fst (Collect_stream 1 (sched @ more) w2)) = Some r
            \<and> snd r = None \<and> mset (fst r) = mset (outs fn S)"
    using run(3) by blast
  have e: "moves (Collect_iter 1) sched (\<lparr>result = [], c_ret = None\<rparr>, w2)
            \<le> 4 * length S + 2 * nat n + 6"
    using run(2) pre_slice_stage(3)[OF p2 n1(1) st] by simp
  have f: "c_ret st = None \<longrightarrow> (\<exists>e. internal e \<and> one (Collect_iter 1) e (st, w) \<noteq> (st, w))"
    using Good_progress[OF run(1)] by blast
  show ?thesis using a b c d e f unfolding ids m1 by blast
qed

lemmas run_defs = Collect_stream_def Collect_iter_def NewSliceStream_def Map_def Filter_def Parallel_def
  stage_def world0_def make_chan_def go_step_def child_step_def loop_step_def apply_body_def set_go_def
  upd_chan_def peek_def pop_def can_send_def send_def close_def sent_def chan_of_def st_pool_def
  run_def

theorem Map_sequential_witness:
  "c_ret (fst (Collect_stream 1 [Run 0, Run 0, Run 0, Run 1, Run 1, Run 1, Poll PickSource, Run 1,
      Run 1, Poll PickSource, Run 1, Run 1, Poll PickSource, Run 1, Poll PickSource] (snd (Map
      (\<lambda>x. x * 2) 0 (run [Run 0] (snd (NewSliceStream [1, 2, 3 :: int] (world0 :: (int,
      unit) world)))))))) = Some ([2, 4, 6], None)"
  using Map_sequential[of "[1, 2, 3 :: int]" 0 "snd (NewSliceStream [1, 2, 3 :: int] (world0 ::
      (int, unit) world))" "[Run 0]" "(\<lambda>x. x * 2)" 1
      "snd (Map (\<lambda>x. x * 2) 0 (run [Run 0] (snd (NewSliceStream [1, 2, 3 :: int] (world0 ::
      (int, unit) world)))))"
      "[Run 0, Run 0, Run 0, Run 1, Run 1, Run 1, Poll PickSource, Run 1, Run 1, Poll PickSource,
      Run 1, Run 1, Poll PickSource, Run 1, Poll PickSource]"
      "fst (Collect_stream 1 [Run 0, Run 0, Run 0, Run 1, Run 1, Run 1, Poll PickSource, Run 1, Run
      1, Poll PickSource, Run 1, Run 1, Poll PickSource, Run 1, Poll PickSource] (snd (Map
      (\<lambda>x. x * 2) 0 (run [Run 0] (snd (NewSliceStream [1, 2, 3 :: int] (world0 :: (int,
      unit) world)))))))"
      "snd (Collect_stream 1 [Run 0, Run 0, Run 0, Run 1, Run 1, Run 1, Poll PickSource, Run 1, Run
      1, Poll PickSource, Run 1, Run 1, Poll PickSource, Run 1, Poll PickSource] (snd (Map
      (\<lambda>x. x * 2) 0 (run [Run 0] (snd (NewSliceStream [1, 2, 3 :: int] (world0 :: (int,
      unit) world)))))))"]
  by (simp add: run_defs)

theorem Filter_sequential_witness:
  "c_ret (fst (Collect_stream 1 [Run 0, Run 0, Run 0, Run 1, Run 1, Run 1, Run 1, Poll PickSource,
      Run 1, Run 1, Run 1, Run 1, Poll PickSource, Poll PickSource] (snd (Filter (\<lambda>x. x mod
      2 = 0) 0 (run [Run 0, Run 0] (snd (NewSliceStream [1, 2, 3, 4 :: int] (world0 :: (int, unit)
      world)))))))) = Some ([2, 4], None)"
  using Filter_sequential[of "[1, 2, 3, 4 :: int]" 0 "snd (NewSliceStream [1, 2, 3, 4 :: int]
      (world0 :: (int, unit) world))" "[Run 0, Run 0]" "(\<lambda>x. x mod 2 = 0)" 1
      "snd (Filter (\<lambda>x. x mod 2 = 0) 0 (run [Run 0, Run 0] (snd (NewSliceStream [1, 2, 3, 4
      :: int] (world0 :: (int, unit) world)))))"
      "[Run 0, Run 0, Run 0, Run 1, Run 1, Run 1, Run 1, Poll PickSource, Run 1, Run 1, Run 1, Run
      1, Poll PickSource, Poll PickSource]"
      "fst (Collect_stream 1 [Run 0, Run 0, Run 0, Run 1, Run 1, Run 1, Run 1, Poll PickSource, Run
      1, Run 1, Run 1, Run 1, Poll PickSource, Poll PickSource] (snd (Filter (\<lambda>x. x mod 2 =
      0) 0 (run [Run 0, Run 0] (snd (NewSliceStream [1, 2, 3, 4 :: int] (world0 :: (int, unit)
      world)))))))"
      "snd (Collect_stream 1 [Run 0, Run 0, Run 0, Run 1, Run 1, Run 1, Run 1, Poll PickSource, Run
      1, Run 1, Run 1, Run 1, Poll PickSource, Poll PickSource] (snd (Filter (\<lambda>x. x mod 2 =
      0) 0 (run [Run 0, Run 0] (snd (NewSliceStream [1, 2, 3, 4 :: int] (world0 :: (int, unit)
      world)))))))"]
  by (simp add: run_defs)

theorem Parallel_stage_multiset_witness:
  "c_ret (fst (Collect_stream 1 [Run 0, Run 1, Run 1, Run 1, Run 1, RunChild 1 1, RunChild 1 0,
      RunChild 1 0, RunChild 1 1, RunChild 1 0, RunChild 1 1, Run 1, Poll PickSource, Poll
      PickSource, Poll PickSource] (snd (stage (MapFn (\<lambda>x. x * 2)) 0 (run [Run 0] (snd
      (Parallel 2 0 (run [Run 0] (snd (NewSliceStream [1, 2 :: int] (world0 :: (int, unit)
      world))))))))))) = Some ([4, 2], None)
   \<and> closed (chan_of 1 (snd (Collect_stream 1 [Run 0, Run 1, Run 1, Run 1, Run 1, RunChild 1
      1, RunChild 1 0, RunChild 1 0, RunChild 1 1, RunChild 1 0, RunChild 1 1, Run 1, Poll
      PickSource, Poll PickSource, Poll PickSource] (snd (stage (MapFn (\<lambda>x. x * 2)) 0 (run
      [Run 0] (snd (Parallel 2 0 (run [Run 0] (snd (NewSliceStream [1, 2 :: int] (world0 :: (int,
      unit) world))))))))))))
   \<and> st_pool (snd (Collect_stream 1 [Run 0, Run 1, Run 1, Run 1, Run 1, RunChild 1 1, RunChild
      1 0, RunChild 1 0, RunChild 1 1, RunChild 1 0, RunChild 1 1, Run 1, Poll PickSource, Poll
      PickSource, Poll PickSource] (snd (stage (MapFn (\<lambda>x. x * 2)) 0 (run [Run 0] (snd
      (Parallel 2 0 (run [Run 0] (snd (NewSliceStream [1, 2 :: int] (world0 :: (int, unit)
      world))))))))))) = [LoopExit, LoopExit]
   \<and> c_ret (fst (Collect_stream 1 [Run 0, Run 0, Run 0, Run 1, Run 1, Run 1, Poll PickSource,
      Run 1, Run 1, Poll PickSource, Run 1, Poll PickSource] (snd (stage (MapFn (\<lambda>x. x *
      2)) 0 (run [] (snd (NewSliceStream [1, 2 :: int] (world0 :: (int, unit) world)))))))) = Some
      ([2, 4], None)"
  using Parallel_stage_multiset[of 2 "[1, 2 :: int]" 0 "snd (NewSliceStream [1, 2 :: int] (world0
      :: (int, unit) world))" "[Run 0]" 0
      "snd (Parallel 2 0 (run [Run 0] (snd (NewSliceStream [1, 2 :: int] (world0 :: (int, unit)
      world)))))"
      "[Run 0]" "MapFn (\<lambda>x. x * 2)" 1
      "snd (stage (MapFn (\<lambda>x. x * 2)) 0 (run [Run 0] (snd (Parallel 2 0 (run [Run 0] (snd
      (NewSliceStream [1, 2 :: int] (world0 :: (int, unit) world))))))))"
      "[Run 0, Run 1, Run 1, Run 1, Run 1, RunChild 1 1, RunChild 1 0, RunChild 1 0, RunChild 1 1,
      RunChild 1 0, RunChild 1 1, Run 1, Poll PickSource, Poll PickSource, Poll PickSource]"
      "fst (Collect_stream 1 [Run 0, Run 1, Run 1, Run 1, Run 1, RunChild 1 1, RunChild 1 0,
      RunChild 1 0, RunChild 1 1, RunChild 1 0, RunChild 1 1, Run 1, Poll PickSource, Poll
      PickSource, Poll PickSource] (snd (stage (MapFn (\<lambda>x. x * 2)) 0 (run [Run 0] (snd
      (Parallel 2 0 (run [Run 0] (snd (NewSliceStream [1, 2 :: int] (world0 :: (int, unit)
      world))))))))))"
      "snd (Collect_stream 1 [Run 0, Run 1, Run 1, Run 1, Run 1, RunChild 1 1, RunChild 1 0,
      RunChild 1 0, RunChild 1 1, RunChild 1 0, RunChild 1 1, Run 1, Poll PickSource, Poll
      PickSource, Poll PickSource] (snd (stage (MapFn (\<lambda>x. x * 2)) 0 (run [Run 0] (snd
      (Parallel 2 0 (run [Run 0] (snd (NewSliceStream [1, 2 :: int] (world0 :: (int, unit)
      world))))))))))"
      "[]" 1
      "snd (stage (MapFn (\<lambda>x. x * 2)) 0 (run [] (snd (NewSliceStream [1, 2 :: int] (world0
      :: (int, unit) world)))))"
      "[Run 0, Run 0, Run 0, Run 1, Run 1, Run 1, Poll PickSource, Run 1, Run 1, Poll PickSource,
      Run 1, Poll PickSource]"
      "fst (Collect_stream 1 [Run 0, Run 0, Run 0, Run 1, Run 1, Run 1, Poll PickSource, Run 1, Run
      1, Poll PickSource, Run 1, Poll PickSource] (snd (stage (MapFn (\<lambda>x. x * 2)) 0 (run []
      (snd (NewSliceStream [1, 2 :: int] (world0 :: (int, unit) world)))))))"
      "snd (Collect_stream 1 [Run 0, Run 0, Run 0, Run 1, Run 1, Run 1, Poll PickSource, Run 1, Run
      1, Poll PickSource, Run 1, Poll PickSource] (snd (stage (MapFn (\<lambda>x. x * 2)) 0 (run []
      (snd (NewSliceStream [1, 2 :: int] (world0 :: (int, unit) world)))))))"]
  by (simp add: run_defs)

subsection \<open>Generator and Collect\<close>

lemmas gen_defs = glayout_def gn_g_def gn_pc_def gen_calls_def

lemma GenGood_literal:
  assumes "GenGood gen xs (st, w)"
  obtains c g pc n where
    "w = \<lparr>chans = [c], objs = [\<lparr>source = 0, workers = 1\<rparr>], gos = [GenG 0 gen g pc n], ctx = None\<rparr>"
proof -
  from assms have "glayout gen w" by (simp add: GenGood_def)
  then obtain c g pc n where
    "chans w = [c]" "objs w = [\<lparr>source = 0, workers = 1\<rparr>]" "gos w = [GenG 0 gen g pc n]" "ctx w = None"
    by (auto simp: glayout_def)
  then have "w = \<lparr>chans = [c], objs = [\<lparr>source = 0, workers = 1\<rparr>], gos = [GenG 0 gen g pc n], ctx = None\<rparr>"
    by (cases w) simp
  then show ?thesis using that by blast
qed

lemma GenGood_gen:
  assumes "GenGood gen xs (st, w)"
  shows "GenGood gen xs (st, go_step 0 w) \<and> (gmu xs (st, go_step 0 w) < gmu xs (st, w) \<or> go_step 0 w = w)"
proof -
  obtain c g pc n where
    w: "w = \<lparr>chans = [c], objs = [\<lparr>source = 0, workers = 1\<rparr>], gos = [GenG 0 gen g pc n], ctx = None\<rparr>"
    using GenGood_literal[OF assms] by blast
  show ?thesis
  proof (cases pc)
    case LoopHead
    then obtain rest where r: "xs = sent c @ rest" "yields gen g rest" "n = length (sent c)" "\<not> closed c"
      using assms unfolding w by (auto simp: GenGood_def gen_defs)
    obtain item ok g' where gg: "gen g = ((item, ok), g')"
      by (metis prod.exhaust)
    show ?thesis
    proof (cases rest)
      case Nil
      then have "\<not> ok" using r(2) gg by simp
      then show ?thesis using assms LoopHead r Nil gg unfolding w
        by (auto simp: GenGood_def gmu_def gen_defs go_step_def set_go_def upd_chan_def close_def sent_def)
    next
      case (Cons y rest')
      then have "ok" "item = y" "yields gen g' rest'" using r(2) gg by simp_all
      then show ?thesis using assms LoopHead r Cons gg unfolding w
        by (auto simp: GenGood_def gmu_def gen_defs go_step_def set_go_def sent_def)
    qed
  next
    case (Sending item)
    then show ?thesis using assms unfolding w
      by (auto simp: GenGood_def gmu_def gen_defs go_step_def set_go_def upd_chan_def can_send_def
          send_def sent_def)
  next
    case LoopExit
    then show ?thesis using assms unfolding w
      by (auto simp: GenGood_def gmu_def gen_defs go_step_def)
  qed
qed

lemma GenGood_poll:
  assumes "GenGood gen xs (st, w)"
  shows "GenGood gen xs (Collect_iter 0 p (st, w))
       \<and> (gmu xs (Collect_iter 0 p (st, w)) < gmu xs (st, w) \<or> Collect_iter 0 p (st, w) = (st, w))"
proof -
  obtain c g pc n where
    w: "w = \<lparr>chans = [c], objs = [\<lparr>source = 0, workers = 1\<rparr>], gos = [GenG 0 gen g pc n], ctx = None\<rparr>"
    using GenGood_literal[OF assms] by blast
  show ?thesis
  proof (cases "c_ret st")
    case (Some r)
    then have "Collect_iter 0 p (st, w) = (st, w)" by (simp add: Collect_iter_def)
    then show ?thesis using assms by simp
  next
    case None
    show ?thesis
    proof (cases "peek c")
      case (Item x)
      then obtain ys where b: "buf c = x # ys"
        by (auto simp: peek_def split: list.splits if_splits)
      show ?thesis using assms None b unfolding w
        by (cases pc)
           (auto simp: GenGood_def gmu_def gen_defs Collect_iter_def upd_chan_def peek_def pop_def sent_def)
    next
      case Closed
      then have b: "buf c = []" "closed c"
        by (auto simp: peek_def split: list.splits if_splits)
      show ?thesis using assms None b unfolding w
        by (cases pc)
           (auto simp: GenGood_def gmu_def gen_defs Collect_iter_def peek_def sent_def)
    next
      case Blocked
      then have "Collect_iter 0 p (st, w) = (st, w)"
        using None unfolding w by (simp add: Collect_iter_def)
      then show ?thesis using assms by simp
    qed
  qed
qed

lemma GenGood_idle:
  assumes "GenGood gen xs (st, w)"
  shows "1 \<le> q \<longrightarrow> go_step q w = w" "child_step q k w = w"
proof -
  obtain c g pc n where
    w: "w = \<lparr>chans = [c], objs = [\<lparr>source = 0, workers = 1\<rparr>], gos = [GenG 0 gen g pc n], ctx = None\<rparr>"
    using GenGood_literal[OF assms] by blast
  show "1 \<le> q \<longrightarrow> go_step q w = w"
    unfolding w by (simp add: go_step_def)
  show "child_step q k w = w"
    unfolding w by (cases q) (auto simp: child_step_def)
qed

lemma GenGood_one:
  assumes "GenGood gen xs x" "internal e"
  shows "GenGood gen xs (one (Collect_iter 0) e x)
       \<and> (gmu xs (one (Collect_iter 0) e x) < gmu xs x \<or> one (Collect_iter 0) e x = x)"
proof -
  obtain st w where x: "x = (st, w)" by (cases x)
  show ?thesis
  proof (cases e)
    case (Run q)
    show ?thesis
    proof (cases "q = 0")
      case True
      then show ?thesis using assms(1) Run GenGood_gen[of gen xs st w] by (simp add: x one_def)
    next
      case False
      then show ?thesis using assms(1) Run GenGood_idle(1)[of gen xs st w q] by (simp add: x one_def)
    qed
  next
    case (RunChild q k)
    then show ?thesis using assms(1) GenGood_idle(2)[of gen xs st w q k] by (simp add: x one_def)
  next
    case (Poll p)
    then show ?thesis using assms(1) GenGood_poll[of gen xs st w p] by (simp add: x one_def)
  qed (use assms(2) in simp_all)
qed

lemma GenGood_progress:
  assumes "GenGood gen xs (st, w)" "c_ret st = None"
  shows "\<exists>e. internal e \<and> one (Collect_iter 0) e (st, w) \<noteq> (st, w)"
proof -
  obtain c g pc n where
    w: "w = \<lparr>chans = [c], objs = [\<lparr>source = 0, workers = 1\<rparr>], gos = [GenG 0 gen g pc n], ctx = None\<rparr>"
    using GenGood_literal[OF assms(1)] by blast
  show ?thesis
  proof (cases "peek c = Blocked")
    case False
    then have "obs (one (Collect_iter 0) (Poll PickSource) (st, w)) \<noteq> obs (st, w)"
      using assms(2) unfolding w
      by (cases "peek c")
         (auto simp: obs_def one_def Collect_iter_def upd_chan_def peek_def pop_def split: list.splits if_splits)
    then show ?thesis using obs_neq by (intro exI[of _ "Poll PickSource"]) auto
  next
    case True
    then have c: "buf c = []" "\<not> closed c"
      by (auto simp: peek_def split: list.splits if_splits)
    have "obs (one (Collect_iter 0) (Run 0) (st, w)) \<noteq> obs (st, w)"
      using assms(1) c unfolding w
      by (cases pc; cases "gen g")
         (auto simp: obs_def one_def GenGood_def gen_defs go_step_def set_go_def upd_chan_def can_send_def
            send_def close_def split: if_splits)
    then show ?thesis using obs_neq by (intro exI[of _ "Run 0"]) auto
  qed
qed

lemma GenGood_drive:
  assumes "GenGood gen xs x" "\<forall>e \<in> set es. internal e"
  shows "GenGood gen xs (drive (Collect_iter 0) es x)
       \<and> moves (Collect_iter 0) es x + gmu xs (drive (Collect_iter 0) es x) \<le> gmu xs x"
  using drive_measure[where I = "GenGood gen xs" and ok = internal and m = "gmu xs" and iter = "Collect_iter 0",
      OF GenGood_one assms] .

lemma GenGood_finish:
  fixes x :: "'v collect_st \<times> ('v, 'g) world"
  assumes "GenGood gen xs x"
  shows "\<exists>es. (\<forall>e \<in> set es. internal e) \<and> c_ret (fst (drive (Collect_iter 0) es x)) \<noteq> None"
proof (rule drive_finish[where I = "GenGood gen xs" and ok = internal and m = "gmu xs"
      and iter = "Collect_iter 0" and fin = "\<lambda>x. c_ret (fst x) \<noteq> None"])
  show "GenGood gen xs x" by (rule assms)
next
  fix x :: "'v collect_st \<times> ('v, 'g) world" and e :: "'v event"
  assume "GenGood gen xs x" "internal e"
  then show "GenGood gen xs (one (Collect_iter 0) e x)
      \<and> (gmu xs (one (Collect_iter 0) e x) < gmu xs x \<or> one (Collect_iter 0) e x = x)"
    by (rule GenGood_one)
next
  fix x :: "'v collect_st \<times> ('v, 'g) world"
  assume a: "GenGood gen xs x" "\<not> c_ret (fst x) \<noteq> None"
  have "GenGood gen xs (fst x, snd x)" using a(1) by simp
  moreover have "c_ret (fst x) = None" using a(2) by blast
  ultimately show "\<exists>e. internal e \<and> one (Collect_iter 0) e x \<noteq> x"
    using GenGood_progress[of gen xs "fst x" "snd x"] by simp
qed

lemma GenGood_init:
  assumes "yields gen g0 xs" "Generator gen g0 world0 = (s, w1)"
  shows "s = 0"
    "GenGood gen xs (\<lparr>result = [], c_ret = None\<rparr>, w1)"
    "gmu xs (\<lparr>result = [], c_ret = None\<rparr>, w1) = 3 * length xs + 4"
  using assms
  by (auto simp: Generator_def world0_def GenGood_def gmu_def gen_defs make_chan_def sent_def)

lemma GenGood_facts:
  assumes "GenGood gen xs (st, w)"
  shows "\<exists>rest. xs = sent (chan_of 0 w) @ rest"
    and "gen_calls w \<le> length xs + 1"
    and "closed (chan_of 0 w) \<longrightarrow> sent (chan_of 0 w) = xs \<and> gen_calls w = length xs + 1"
    and "\<forall>r. c_ret st = Some r \<longrightarrow> r = (xs, None)"
proof -
  obtain c g pc n where
    w: "w = \<lparr>chans = [c], objs = [\<lparr>source = 0, workers = 1\<rparr>], gos = [GenG 0 gen g pc n], ctx = None\<rparr>"
    using GenGood_literal[OF assms] by blast
  show "\<exists>rest. xs = sent (chan_of 0 w) @ rest"
    using assms unfolding w by (cases pc) (auto simp: GenGood_def gen_defs chan_of_def)
  show "gen_calls w \<le> length xs + 1"
    using assms unfolding w by (cases pc) (auto simp: GenGood_def gen_defs)
  show "closed (chan_of 0 w) \<longrightarrow> sent (chan_of 0 w) = xs \<and> gen_calls w = length xs + 1"
    using assms unfolding w by (cases pc) (auto simp: GenGood_def gen_defs chan_of_def)
  show "\<forall>r. c_ret st = Some r \<longrightarrow> r = (xs, None)"
    using assms unfolding w by (cases pc) (auto simp: GenGood_def gen_defs sent_def)
qed

text \<open>
  C8. \<open>Generator(gen).Collect(ctx)\<close> for a generator that yields exactly the values
  \<open>xs\<close>, with a context that never fires, under every schedule of the two goroutines.
  Whenever \<open>Collect\<close> has returned, it has returned \<open>xs\<close> (so \<open>length xs\<close> elements,
  in the order of the calls) and a nil error. What was sent is always a prefix of \<open>xs\<close>:
  the value that came with has-more \<open>false\<close> is never sent. The generator is called at
  most \<open>length xs + 1\<close> times, exactly so many once the channel is closed: the call
  that returned \<open>false\<close> was its last. \<open>Collect\<close> can always still return; while it
  has not returned some goroutine can move, and no schedule makes more than
  \<open>3 * length xs + 4\<close> steps that change the state.
\<close>

theorem Generator_collect:
  assumes "yields gen g0 xs"
    and "Generator gen g0 world0 = (s, w1)"
    and "Collect_stream s sched w1 = (st, w)" "\<forall>e \<in> set sched. internal e"
  shows "(\<forall>r. c_ret st = Some r \<longrightarrow> r = (xs, None))
       \<and> (\<exists>rest. xs = sent (chan_of s w) @ rest)
       \<and> gen_calls w \<le> length xs + 1
       \<and> (closed (chan_of s w) \<longrightarrow> sent (chan_of s w) = xs \<and> gen_calls w = length xs + 1)
       \<and> (\<exists>more. (\<forall>e \<in> set more. internal e)
            \<and> c_ret (fst (Collect_stream s (sched @ more) w1)) = Some (xs, None))
       \<and> (c_ret st = None \<longrightarrow> (\<exists>e. internal e \<and> one (Collect_iter s) e (st, w) \<noteq> (st, w)))
       \<and> moves (Collect_iter s) sched (\<lparr>result = [], c_ret = None\<rparr>, w1) \<le> 3 * length xs + 4"
proof -
  have s: "s = 0" using GenGood_init(1)[OF assms(1,2)] .
  note g0 = GenGood_init(2)[OF assms(1,2)]
  have d: "GenGood gen xs (st, w)"
    "moves (Collect_iter 0) sched (\<lparr>result = [], c_ret = None\<rparr>, w1) + gmu xs (st, w)
      \<le> gmu xs (\<lparr>result = [], c_ret = None\<rparr>, w1)"
    using GenGood_drive[OF g0 assms(4)] assms(3) by (simp_all add: Collect_stream_def s)
  obtain more where more: "\<forall>e \<in> set more. internal e"
    "c_ret (fst (drive (Collect_iter 0) more (st, w))) \<noteq> None"
    using GenGood_finish[OF d(1)] by blast
  obtain st' w' where fin: "drive (Collect_iter 0) more (st, w) = (st', w')"
    by fastforce
  then obtain r where r: "c_ret st' = Some r" using more(2) by auto
  have "GenGood gen xs (st', w')"
    using GenGood_drive[OF d(1) more(1)] fin by simp
  then have "r = (xs, None)" using GenGood_facts(4) r by blast
  moreover have "Collect_stream 0 (sched @ more) w1 = (st', w')"
    using assms(3) fin by (simp add: Collect_stream_def drive_append s)
  ultimately have e: "\<exists>more. (\<forall>e \<in> set more. internal e)
            \<and> c_ret (fst (Collect_stream 0 (sched @ more) w1)) = Some (xs, None)"
    using more(1) r by (intro exI[of _ more]) simp
  have f: "moves (Collect_iter 0) sched (\<lparr>result = [], c_ret = None\<rparr>, w1) \<le> 3 * length xs + 4"
    using d(2) GenGood_init(3)[OF assms(1,2)] by simp
  have p: "c_ret st = None \<longrightarrow> (\<exists>e. internal e \<and> one (Collect_iter 0) e (st, w) \<noteq> (st, w))"
    using GenGood_progress[OF d(1)] by blast
  show ?thesis
    using GenGood_facts[OF d(1)] e f p unfolding s by blast
qed

theorem Generator_collect_witness:
  "c_ret (fst (Collect_stream 0 [Run 0, Run 0, Poll PickSource, Run 0, Run 0, Poll PickSource, Run 0, Run 0, Poll PickSource, Run 0, Poll PickSource] (snd (Generator (\<lambda>c :: nat. if 3 \<le> c then ((0 :: int, False), c) else ((int c + 1, True), c + 1)) 0 (world0 :: (int, nat) world))))) = Some ([1, 2, 3], None)
   \<and> gen_calls (snd (Collect_stream 0 [Run 0, Run 0, Poll PickSource, Run 0, Run 0, Poll PickSource, Run 0, Run 0, Poll PickSource, Run 0, Poll PickSource] (snd (Generator (\<lambda>c :: nat. if 3 \<le> c then ((0 :: int, False), c) else ((int c + 1, True), c + 1)) 0 (world0 :: (int, nat) world))))) = 4"
  using Generator_collect[of "(\<lambda>c :: nat. if 3 \<le> c then ((0 :: int, False), c) else ((int c + 1, True), c + 1))" 0 "[1, 2, 3]" 0 "snd (Generator (\<lambda>c :: nat. if 3 \<le> c then ((0 :: int, False), c) else ((int c + 1, True), c + 1)) 0 (world0 :: (int, nat) world))" "[Run 0, Run 0, Poll PickSource, Run 0, Run 0, Poll PickSource, Run 0, Run 0, Poll PickSource, Run 0, Poll PickSource]"
      "fst (Collect_stream 0 [Run 0, Run 0, Poll PickSource, Run 0, Run 0, Poll PickSource, Run 0, Run 0, Poll PickSource, Run 0, Poll PickSource] (snd (Generator (\<lambda>c :: nat. if 3 \<le> c then ((0 :: int, False), c) else ((int c + 1, True), c + 1)) 0 (world0 :: (int, nat) world))))" "snd (Collect_stream 0 [Run 0, Run 0, Poll PickSource, Run 0, Run 0, Poll PickSource, Run 0, Run 0, Poll PickSource, Run 0, Poll PickSource] (snd (Generator (\<lambda>c :: nat. if 3 \<le> c then ((0 :: int, False), c) else ((int c + 1, True), c + 1)) 0 (world0 :: (int, nat) world))))"]
  by (simp add: run_defs Generator_def gen_calls_def)

text \<open>
  C7. \<open>Parallel(n)\<close> on a stream \<open>s\<close> returns the pointer \<open>s\<close> itself; the struct it
  points to has the worker count \<open>1\<close> for \<open>n <= 0\<close> and \<open>n\<close> otherwise and the channel
  it had; no channel, struct or goroutine is made and no other struct changes. \<open>Map\<close>
  and \<open>Filter\<close> return a new struct whose channel is a new one.
\<close>

theorem Parallel_in_place:
  assumes "s < length (objs w)" "source (objs w ! s) < length (chans w)"
  shows "fst (Parallel n s w) = s
       \<and> workers (objs (snd (Parallel n s w)) ! s) = (if n \<le> 0 then 1 else n)
       \<and> source (objs (snd (Parallel n s w)) ! s) = source (objs w ! s)
       \<and> chan_of s (snd (Parallel n s w)) = chan_of s w
       \<and> chans (snd (Parallel n s w)) = chans w
       \<and> gos (snd (Parallel n s w)) = gos w
       \<and> ctx (snd (Parallel n s w)) = ctx w
       \<and> length (objs (snd (Parallel n s w))) = length (objs w)
       \<and> (\<forall>t. t \<noteq> s \<longrightarrow> objs (snd (Parallel n s w)) ! t = objs w ! t)
       \<and> fst (Map f s w) = length (objs w) \<and> fst (Map f s w) \<noteq> s
       \<and> source (objs (snd (Map f s w)) ! fst (Map f s w)) = length (chans w)
       \<and> source (objs (snd (Map f s w)) ! fst (Map f s w)) \<noteq> source (objs w ! s)
       \<and> length (chans (snd (Map f s w))) = Suc (length (chans w))
       \<and> fst (Filter p s w) = length (objs w) \<and> fst (Filter p s w) \<noteq> s
       \<and> source (objs (snd (Filter p s w)) ! fst (Filter p s w)) = length (chans w)
       \<and> source (objs (snd (Filter p s w)) ! fst (Filter p s w)) \<noteq> source (objs w ! s)
       \<and> length (chans (snd (Filter p s w))) = Suc (length (chans w))"
  using assms
  by (simp add: Parallel_def Map_def Filter_def stage_def chan_of_def Let_def nth_append)

theorem Parallel_in_place_witness:
  "fst (Parallel (- 2) 0 (snd (NewSliceStream [1, 2, 3 :: int] (world0 :: (int, unit) world)))) = 0
   \<and> workers (objs (snd (Parallel (- 2) 0 (snd (NewSliceStream [1, 2, 3 :: int] (world0 :: (int, unit) world))))) ! 0) = 1
   \<and> workers (objs (snd (Parallel 3 0 (snd (NewSliceStream [1, 2, 3 :: int] (world0 :: (int, unit) world))))) ! 0) = 3
   \<and> fst (Map (\<lambda>x. x + 1) 0 (snd (NewSliceStream [1, 2, 3 :: int] (world0 :: (int, unit) world)))) = 1"
  using Parallel_in_place[of 0 "snd (NewSliceStream [1, 2, 3 :: int] (world0 :: (int, unit) world))" "- 2"
      "\<lambda>x. x + 1" "\<lambda>x. True"]
    Parallel_in_place[of 0 "snd (NewSliceStream [1, 2, 3 :: int] (world0 :: (int, unit) world))" 3
      "\<lambda>x. x + 1" "\<lambda>x. True"]
  by (simp add: run_defs)

end
